theory Spec2Isabelle
  imports Complex_Main "HOL-Library.Sublist"
begin

section \<open>The publish-subscribe bus of \<^verbatim>\<open>agent_protocol.py\<close>\<close>

text \<open>
  The development embeds \<^verbatim>\<open>src/communication_protocol/agent_protocol.py\<close>: the
  pydantic model \<^verbatim>\<open>Message\<close> and the class \<^verbatim>\<open>AgentProtocol\<close> with its methods
  \<^verbatim>\<open>subscribe\<close>, \<^verbatim>\<open>unsubscribe\<close>, \<^verbatim>\<open>publish\<close>, \<^verbatim>\<open>_dispatch\<close>, \<^verbatim>\<open>_run_loop\<close>,
  \<^verbatim>\<open>run\<close> and \<^verbatim>\<open>stop\<close>. Mutation of \<^verbatim>\<open>self\<close> is explicit state passing; what the
  code writes to \<^verbatim>\<open>logging\<close> and which handlers it awaits are recorded in the state, so
  that they can be observed.
\<close>

subsection \<open>Message\<close>

text \<open>Values of a payload (\<^verbatim>\<open>Dict[str, Any]\<close>): JSON-like Python data.\<close>

datatype py_value =
    PNone
  | PBool bool
  | PInt int
  | PFloat real
  | PStr string
  | PList "py_value list"
  | PDict "(string \<times> py_value) list"

text \<open>
  The ten fields of \<^verbatim>\<open>class Message(BaseModel)\<close>, in declaration order. Python floats
  are modelled as reals (no NaN, no infinities).
\<close>

record message =
  sender :: string
  topic :: string
  payload :: "(string \<times> py_value) list"
  message_id :: string
  conversation_id :: "string option"
  in_reply_to :: "string option"
  timestamp :: real
  priority :: real
  token_count :: "int option"
  summary :: "string option"

text \<open>
  The keyword arguments of a call \<^verbatim>\<open>Message(...)\<close>. \<open>None\<close> is an argument that was not
  given; every argument that is given has the type of its field.
\<close>

record message_kwargs =
  kw_sender :: "string option"
  kw_topic :: "string option"
  kw_payload :: "(string \<times> py_value) list option"
  kw_message_id :: "string option"
  kw_conversation_id :: "string option"
  kw_in_reply_to :: "string option"
  kw_timestamp :: "real option"
  kw_priority :: "real option"
  kw_token_count :: "int option"
  kw_summary :: "string option"

text \<open>
  The entries of pydantic's \<^verbatim>\<open>ValidationError\<close> that the declaration can produce for
  well-typed arguments: a field without default that is missing, and the bounds
  \<^verbatim>\<open>ge=0.0\<close> and \<^verbatim>\<open>le=1.0\<close> of \<^verbatim>\<open>priority\<close>.
\<close>

datatype validation_error =
    Missing string
  | Greater_than_equal string
  | Less_than_equal string

definition required :: "string \<Rightarrow> 'a option \<Rightarrow> validation_error list" where
  "required name v = (case v of None \<Rightarrow> [Missing name] | Some _ \<Rightarrow> [])"

definition priority_errors :: "real option \<Rightarrow> validation_error list" where
  "priority_errors p =
     (case p of
        None \<Rightarrow> []
      | Some x \<Rightarrow>
          if \<not> 0 \<le> x then [Greater_than_equal ''priority'']
          else if \<not> x \<le> 1 then [Less_than_equal ''priority'']
          else [])"

text \<open>
  \<^verbatim>\<open>sender: str\<close>, \<^verbatim>\<open>topic: str\<close> and \<^verbatim>\<open>payload: Dict[str, Any]\<close> have no default, so
  they are required; \<^verbatim>\<open>topic\<close> carries no constraint besides its type.
\<close>

definition validation_errors :: "message_kwargs \<Rightarrow> validation_error list" where
  "validation_errors kw =
     required ''sender'' (kw_sender kw) @
     required ''topic'' (kw_topic kw) @
     required ''payload'' (kw_payload kw) @
     priority_errors (kw_priority kw)"

text \<open>
  Construction. \<open>uuid4\<close> and \<open>now\<close> are what \<^verbatim>\<open>str(uuid.uuid4())\<close> and \<^verbatim>\<open>time.time()\<close>
  return when the default factories are called. \<open>Inl\<close> is the raised
  \<^verbatim>\<open>ValidationError\<close> with its entries.
\<close>

definition Message :: "string \<Rightarrow> real \<Rightarrow> message_kwargs \<Rightarrow> validation_error list + message" where
  "Message uuid4 now kw =
     (case kw_sender kw of
        None \<Rightarrow> Inl (validation_errors kw)
      | Some s \<Rightarrow>
     (case kw_topic kw of
        None \<Rightarrow> Inl (validation_errors kw)
      | Some t \<Rightarrow>
     (case kw_payload kw of
        None \<Rightarrow> Inl (validation_errors kw)
      | Some p \<Rightarrow>
          if priority_errors (kw_priority kw) \<noteq> [] then Inl (validation_errors kw)
          else Inr \<lparr> sender = s, topic = t, payload = p,
                    message_id = (case kw_message_id kw of None \<Rightarrow> uuid4 | Some i \<Rightarrow> i),
                    conversation_id = kw_conversation_id kw,
                    in_reply_to = kw_in_reply_to kw,
                    timestamp = (case kw_timestamp kw of None \<Rightarrow> now | Some ts \<Rightarrow> ts),
                    priority = (case kw_priority kw of None \<Rightarrow> 0.5 | Some x \<Rightarrow> x),
                    token_count = kw_token_count kw,
                    summary = kw_summary kw \<rparr>)))"

subsection \<open>AgentProtocol: state\<close>

text \<open>
  A handler is a reference to an async callable; two references are equal when Python's
  \<^verbatim>\<open>in\<close> and \<^verbatim>\<open>list.remove\<close> find them equal. What awaiting \<^verbatim>\<open>handler(message)\<close> does
  is not part of the bus: the environment \<open>handlers\<close> gives, for a handler and the message
  it is called with, how the await ends. \<open>Exception\<close> stands for any instance of
  \<^verbatim>\<open>Exception\<close>, \<open>CancelledError\<close> for \<^verbatim>\<open>asyncio.CancelledError\<close> (a \<^verbatim>\<open>BaseException\<close>
  that is not an \<^verbatim>\<open>Exception\<close>; \<^verbatim>\<open>Task.cancel()\<close> throws it into the task at the await
  where the task is suspended, which is inside the handler when the loop is awaiting one),
  and \<open>BaseException\<close> for any other exception outside \<^verbatim>\<open>Exception\<close>.
  A handler is taken not to call into the bus and not to assign to the message.
\<close>

type_synonym handler = nat

datatype exc = Exception | CancelledError | BaseException

datatype outcome = Returns | Raises exc

type_synonym handlers = "handler \<Rightarrow> message \<Rightarrow> outcome"

datatype level = DEBUG | INFO | WARNING | ERROR

text \<open>
  The four attributes set by \<^verbatim>\<open>__init__\<close>, and three observations: \<open>tasks\<close> has one
  entry per task made by \<^verbatim>\<open>asyncio.create_task\<close>, \<open>True\<close> once \<^verbatim>\<open>cancel()\<close> was called on
  it (a task handle is its index); \<open>logged\<close> is the sequence of \<^verbatim>\<open>logging\<close> calls;
  \<open>calls\<close> is the sequence of handler invocations with their argument.
\<close>

record agent_protocol =
  subscribers :: "string \<rightharpoonup> handler list"
  message_queue :: "message list"
  is_running :: bool
  runner_task :: "nat option"
  tasks :: "bool list"
  logged :: "(level \<times> string) list"
  calls :: "(handler \<times> message) list"

definition init :: agent_protocol where
  "init = \<lparr> subscribers = Map.empty, message_queue = [], is_running = False,
            runner_task = None, tasks = [], logged = [], calls = [] \<rparr>"

text \<open>\<^verbatim>\<open>self._subscribers.get(topic, [])\<close>: a lookup that adds no key.\<close>

definition get_or_empty :: "(string \<rightharpoonup> handler list) \<Rightarrow> string \<Rightarrow> handler list" where
  "get_or_empty d k = (case d k of None \<Rightarrow> [] | Some hs \<Rightarrow> hs)"

definition log_to :: "level \<Rightarrow> string \<Rightarrow> agent_protocol \<Rightarrow> agent_protocol" where
  "log_to lv msg s = s\<lparr>logged := logged s @ [(lv, msg)]\<rparr>"

subsection \<open>subscribe, unsubscribe, publish\<close>

text \<open>
  \<^verbatim>\<open>self._subscribers[topic].append(handler)\<close> on a \<^verbatim>\<open>defaultdict(list)\<close>: a missing key
  starts from the empty list.
\<close>

definition subscribe :: "string \<Rightarrow> handler \<Rightarrow> agent_protocol \<Rightarrow> agent_protocol" where
  "subscribe tp h s =
     (let s1 = log_to INFO (''Registering handler for topic: '' @ tp) s
      in s1\<lparr>subscribers := (subscribers s1)(tp \<mapsto> get_or_empty (subscribers s1) tp @ [h])\<rparr>)"

text \<open>\<^verbatim>\<open>list.remove\<close> deletes the first equal element, which is \<^const>\<open>remove1\<close>.\<close>

definition unsubscribe :: "string \<Rightarrow> handler \<Rightarrow> agent_protocol \<Rightarrow> agent_protocol" where
  "unsubscribe tp h s =
     (if h \<in> set (get_or_empty (subscribers s) tp) then
        (let s1 = log_to INFO (''Unregistering handler for topic: '' @ tp) s
         in s1\<lparr>subscribers := (subscribers s1)(tp \<mapsto> remove1 h (get_or_empty (subscribers s1) tp))\<rparr>)
      else s)"

text \<open>\<^verbatim>\<open>asyncio.Queue()\<close> has no bound, so \<^verbatim>\<open>put\<close> appends and returns.\<close>

definition publish :: "message \<Rightarrow> agent_protocol \<Rightarrow> agent_protocol" where
  "publish m s =
     (let s1 = log_to DEBUG (''Publishing message '' @ message_id m @ '' to topic '' @
                             [CHR 0x27] @ topic m @ [CHR 0x27]) s
      in s1\<lparr>message_queue := message_queue s1 @ [m]\<rparr>)"

subsection \<open>_dispatch\<close>

definition no_subscribers_warning :: "message \<Rightarrow> level \<times> string" where
  "no_subscribers_warning m =
     (WARNING, ''No subscribers for topic: '' @ [CHR 0x27] @ topic m @ [CHR 0x27] @
               ''. Message ID: '' @ message_id m)"

definition handler_error :: "message \<Rightarrow> level \<times> string" where
  "handler_error m =
     (ERROR, ''Error in handler for topic '' @ topic m @ '' on message '' @ message_id m)"

text \<open>
  The \<^verbatim>\<open>for handler in all_handlers\<close> loop. \<^verbatim>\<open>except Exception\<close> catches \<open>Exception\<close> and
  logs it with \<^verbatim>\<open>logging.exception\<close> (level ERROR); anything else a handler raises leaves
  the loop and \<^verbatim>\<open>_dispatch\<close>. The result says which exception propagates, if any.
\<close>

fun for_handlers :: "handlers \<Rightarrow> message \<Rightarrow> handler list \<Rightarrow> agent_protocol \<Rightarrow> exc option \<times> agent_protocol" where
  "for_handlers env m [] s = (None, s)"
| "for_handlers env m (h # hs) s =
     (let s1 = s\<lparr>calls := calls s @ [(h, m)]\<rparr>
      in case env h m of
           Returns \<Rightarrow> for_handlers env m hs s1
         | Raises Exception \<Rightarrow> for_handlers env m hs (s1\<lparr>logged := logged s1 @ [handler_error m]\<rparr>)
         | Raises e \<Rightarrow> (Some e, s1))"

definition dispatch :: "handlers \<Rightarrow> message \<Rightarrow> agent_protocol \<Rightarrow> exc option \<times> agent_protocol" where
  "dispatch env m s =
     (let subs = get_or_empty (subscribers s) (topic m);
          wildcard_subscribers = get_or_empty (subscribers s) ''*'';
          all_handlers = subs @ wildcard_subscribers
      in if all_handlers = [] then (None, s\<lparr>logged := logged s @ [no_subscribers_warning m]\<rparr>)
         else for_handlers env m all_handlers s)"

text \<open>
  Neither loop touches the registry, the queue or the lifecycle attributes: they only
  add to the observations. The dispatch loop below terminates because of this.
\<close>

lemma for_handlers_frame:
  "subscribers (snd (for_handlers env m hs s)) = subscribers s \<and>
   message_queue (snd (for_handlers env m hs s)) = message_queue s \<and>
   is_running (snd (for_handlers env m hs s)) = is_running s \<and>
   runner_task (snd (for_handlers env m hs s)) = runner_task s \<and>
   tasks (snd (for_handlers env m hs s)) = tasks s"
  by (induction hs arbitrary: s) (auto simp: Let_def split: outcome.splits exc.splits)

lemma dispatch_frame:
  "subscribers (snd (dispatch env m s)) = subscribers s \<and>
   message_queue (snd (dispatch env m s)) = message_queue s \<and>
   is_running (snd (dispatch env m s)) = is_running s \<and>
   runner_task (snd (dispatch env m s)) = runner_task s \<and>
   tasks (snd (dispatch env m s)) = tasks s"
  by (simp add: dispatch_def Let_def for_handlers_frame)

subsection \<open>_run_loop\<close>

definition dequeued_debug :: "message \<Rightarrow> level \<times> string" where
  "dequeued_debug m =
     (DEBUG, ''Dequeued message: '' @ message_id m @ '' for topic '' @
             [CHR 0x27] @ topic m @ [CHR 0x27])"

text \<open>
  How a run of the coroutine \<^verbatim>\<open>_run_loop\<close> ends: suspended in
  \<^verbatim>\<open>await self._message_queue.get()\<close> on an empty queue, returned, or left by an
  exception that no \<^verbatim>\<open>except\<close> clause of the coroutine catches.
\<close>

datatype loop_state = Blocked_on_get | Returned | Failed exc

text \<open>The two statements after the \<^verbatim>\<open>while\<close>.\<close>

definition after_loop :: "agent_protocol \<Rightarrow> agent_protocol" where
  "after_loop s = log_to INFO ''Agent protocol runner has stopped.'' (s\<lparr>is_running := False\<rparr>)"

text \<open>
  \<^verbatim>\<open>except asyncio.CancelledError\<close>: log, \<^verbatim>\<open>break\<close>, then the statements after the
  loop. The \<^verbatim>\<open>try\<close> encloses the \<^verbatim>\<open>get\<close> and the \<^verbatim>\<open>_dispatch\<close>, so this is where
  the coroutine goes from either.
\<close>

definition cancelled_in_loop :: "agent_protocol \<Rightarrow> loop_state \<times> agent_protocol" where
  "cancelled_in_loop s =
     (Returned, after_loop (log_to INFO ''Agent protocol runner received cancellation request.'' s))"

text \<open>
  \<^verbatim>\<open>while self._is_running\<close>, run until the coroutine suspends on an empty queue or ends.
  \<^verbatim>\<open>task_done()\<close> only counts finished items for \<^verbatim>\<open>Queue.join\<close>, which nothing calls.
\<close>

function while_is_running :: "handlers \<Rightarrow> agent_protocol \<Rightarrow> loop_state \<times> agent_protocol" where
  "while_is_running env s =
     (if is_running s then
        (case message_queue s of
           [] \<Rightarrow> (Blocked_on_get, s)
         | m # q \<Rightarrow>
             (case dispatch env m (s\<lparr>message_queue := q, logged := logged s @ [dequeued_debug m]\<rparr>) of
                (None, s') \<Rightarrow> while_is_running env s'
              | (Some CancelledError, s') \<Rightarrow> cancelled_in_loop s'
              | (Some e, s') \<Rightarrow> (Failed e, s')))
      else (Returned, after_loop s))"
  by pat_completeness auto
termination
proof (relation "measure (\<lambda>(env, s). length (message_queue s))")
  show "wf (measure (\<lambda>(env, s). length (message_queue s)))" by simp
next
  fix env :: handlers and s :: agent_protocol and m q x s'
  assume q: "message_queue s = m # q"
    and d: "(x, s') = dispatch env m (s\<lparr>message_queue := q, logged := logged s @ [dequeued_debug m]\<rparr>)"
  from d have "s' = snd (dispatch env m (s\<lparr>message_queue := q, logged := logged s @ [dequeued_debug m]\<rparr>))"
    by (metis snd_conv)
  then have "message_queue s' = q" by (simp add: dispatch_frame)
  with q show "((env, s'), (env, s)) \<in> measure (\<lambda>(env, s). length (message_queue s))" by simp
qed

declare while_is_running.simps [simp del]

text \<open>The coroutine from its first statement.\<close>

definition run_loop :: "handlers \<Rightarrow> agent_protocol \<Rightarrow> loop_state \<times> agent_protocol" where
  "run_loop env s =
     while_is_running env (log_to INFO ''Agent protocol runner starting...'' (s\<lparr>is_running := True\<rparr>))"

subsection \<open>run and stop\<close>

text \<open>
  \<^verbatim>\<open>asyncio.create_task\<close> schedules the coroutine and returns its handle; the coroutine
  does not run before the caller suspends, so \<^verbatim>\<open>run\<close> itself leaves \<^verbatim>\<open>_is_running\<close>
  as it is.
\<close>

definition run :: "agent_protocol \<Rightarrow> agent_protocol" where
  "run s =
     (if \<not> is_running s \<and> runner_task s = None then
        s\<lparr>runner_task := Some (length (tasks s)), tasks := tasks s @ [False]\<rparr>
      else log_to WARNING ''Protocol runner is already running.'' s)"

definition stop :: "agent_protocol \<Rightarrow> agent_protocol" where
  "stop s =
     (let s1 = (log_to INFO ''Stopping agent protocol runner...'' s)\<lparr>is_running := False\<rparr>
      in case runner_task s1 of
           None \<Rightarrow> s1
         | Some t \<Rightarrow> s1\<lparr>tasks := (tasks s1)[t := True], runner_task := None\<rparr>)"

subsection \<open>Histories of a bus\<close>

text \<open>
  What can happen to a bus, one event at a time: a call of a public method by some task,
  or the event loop giving a turn to a task that runs \<^verbatim>\<open>_run_loop\<close>: the task starts
  the coroutine, or resumes it in \<^verbatim>\<open>get\<close>, or resumes it in \<^verbatim>\<open>get\<close> with the
  \<^verbatim>\<open>CancelledError\<close> of a \<^verbatim>\<open>cancel()\<close>. The order of events is the scheduler's, so a
  property of all histories holds for every schedule.
\<close>

datatype event =
    Subscribe string handler
  | Unsubscribe string handler
  | Publish message
  | Run
  | Stop
  | Loop_starts
  | Loop_resumes
  | Loop_cancelled

fun exec :: "handlers \<Rightarrow> agent_protocol \<Rightarrow> event \<Rightarrow> agent_protocol" where
  "exec env s (Subscribe tp h) = subscribe tp h s"
| "exec env s (Unsubscribe tp h) = unsubscribe tp h s"
| "exec env s (Publish m) = publish m s"
| "exec env s Run = run s"
| "exec env s Stop = stop s"
| "exec env s Loop_starts = snd (run_loop env s)"
| "exec env s Loop_resumes = snd (while_is_running env s)"
| "exec env s Loop_cancelled = snd (cancelled_in_loop s)"

definition history :: "handlers \<Rightarrow> event list \<Rightarrow> agent_protocol" where
  "history env evs = foldl (exec env) init evs"

text \<open>The loop tasks on which \<^verbatim>\<open>cancel()\<close> was not called.\<close>

definition uncancelled :: "agent_protocol \<Rightarrow> nat list" where
  "uncancelled s = filter (\<lambda>t. \<not> tasks s ! t) [0..<length (tasks s)]"

subsection \<open>What a dispatch is expected to call\<close>

text \<open>The handler list that \<^verbatim>\<open>_dispatch\<close> resolves for a message, as \<^verbatim>\<open>all_handlers\<close>.\<close>

definition all_handlers :: "agent_protocol \<Rightarrow> message \<Rightarrow> handler list" where
  "all_handlers s m = get_or_empty (subscribers s) (topic m) @ get_or_empty (subscribers s) ''*''"

definition invocations :: "message \<Rightarrow> handler list \<Rightarrow> (handler \<times> message) list" where
  "invocations m hs = map (\<lambda>h. (h, m)) hs"

text \<open>A handler whose invocation ends by returning or by an \<^verbatim>\<open>Exception\<close>.\<close>

definition ends_in_dispatch :: "handlers \<Rightarrow> message \<Rightarrow> handler \<Rightarrow> bool" where
  "ends_in_dispatch env m h = (env h m = Returns \<or> env h m = Raises Exception)"

text \<open>What the loop is expected to call for a queue: the handlers of each message, message by message.\<close>

definition deliveries :: "agent_protocol \<Rightarrow> message list \<Rightarrow> (handler \<times> message) list" where
  "deliveries s ms = concat (map (\<lambda>m. invocations m (all_handlers s m)) ms)"

text \<open>What one \<^verbatim>\<open>_dispatch\<close> is expected to log when no handler is interrupted.\<close>

definition dispatch_log :: "handlers \<Rightarrow> agent_protocol \<Rightarrow> message \<Rightarrow> (level \<times> string) list" where
  "dispatch_log env s m =
     (if all_handlers s m = [] then [no_subscribers_warning m]
      else map (\<lambda>h. handler_error m) (filter (\<lambda>h. env h m = Raises Exception) (all_handlers s m)))"

text \<open>What the loop is expected to log for a queue: the dequeue line, then the lines of the dispatch.\<close>

definition loop_log :: "handlers \<Rightarrow> agent_protocol \<Rightarrow> message list \<Rightarrow> (level \<times> string) list" where
  "loop_log env s ms = concat (map (\<lambda>m. dequeued_debug m # dispatch_log env s m) ms)"

text \<open>The handler invocations that one \<^verbatim>\<open>_dispatch\<close>, and one run of the loop, add to \<open>calls\<close>.\<close>

definition invoked_by_dispatch :: "handlers \<Rightarrow> message \<Rightarrow> agent_protocol \<Rightarrow> (handler \<times> message) list" where
  "invoked_by_dispatch env m s = drop (length (calls s)) (calls (snd (dispatch env m s)))"

definition invoked_by_loop :: "handlers \<Rightarrow> agent_protocol \<Rightarrow> (handler \<times> message) list" where
  "invoked_by_loop env s = drop (length (calls s)) (calls (snd (while_is_running env s)))"

subsection \<open>Concrete messages, handlers and buses\<close>

text \<open>
  The message that the tool of \<^verbatim>\<open>examples/fastmcp/pubsub_example.py\<close> publishes, a
  message to another topic, and a message whose topic is the wildcard string itself.
\<close>

definition task_message :: message where
  "task_message =
     \<lparr> sender = ''start_new_task_tool'', topic = ''tasks.start'',
       payload = [(''task_name'', PStr ''x'')], message_id = ''m-1'',
       conversation_id = None, in_reply_to = None, timestamp = 0, priority = 0.8,
       token_count = None, summary = None \<rparr>"

definition other_message :: message where
  "other_message =
     \<lparr> sender = ''tool'', topic = ''b'', payload = [], message_id = ''m-2'',
       conversation_id = None, in_reply_to = None, timestamp = 1, priority = 0.5,
       token_count = None, summary = None \<rparr>"

definition wildcard_message :: message where
  "wildcard_message =
     \<lparr> sender = ''tool'', topic = ''*'', payload = [], message_id = ''m-3'',
       conversation_id = None, in_reply_to = None, timestamp = 2, priority = 0.5,
       token_count = None, summary = None \<rparr>"

text \<open>
  Three environments: every handler returns; handler 1 raises an \<^verbatim>\<open>Exception\<close>;
  handler 1 is awaiting (as \<^verbatim>\<open>worker_agent_handler\<close> does in \<^verbatim>\<open>asyncio.sleep(1)\<close>)
  when the task is cancelled, so that its await raises \<^verbatim>\<open>CancelledError\<close>.
\<close>

definition all_return :: handlers where
  "all_return h m = Returns"

definition worker_raises :: handlers where
  "worker_raises h m = (if h = 1 then Raises Exception else Returns)"

definition worker_cancelled :: handlers where
  "worker_cancelled h m = (if h = 1 then Raises CancelledError else Returns)"

definition example_bus :: agent_protocol where
  "example_bus = subscribe ''*'' 2 (subscribe ''tasks.start'' 1 init)"

definition example_queue :: agent_protocol where
  "example_queue = publish other_message (publish task_message example_bus)"

definition twice_subscribed :: "event list" where
  "twice_subscribed =
     [Subscribe ''tasks.start'' 1, Subscribe ''tasks.start'' 1, Unsubscribe ''tasks.start'' 1,
      Publish task_message, Run, Loop_starts]"

definition once_subscribed :: agent_protocol where
  "once_subscribed = unsubscribe ''tasks.start'' 1 example_bus"

definition empty_topic_kwargs :: message_kwargs where
  "empty_topic_kwargs =
     \<lparr> kw_sender = Some ''tool'', kw_topic = Some '''', kw_payload = Some [],
       kw_message_id = None, kw_conversation_id = None, kw_in_reply_to = None,
       kw_timestamp = None, kw_priority = None, kw_token_count = None, kw_summary = None \<rparr>"

definition no_payload_kwargs :: message_kwargs where
  "no_payload_kwargs =
     \<lparr> kw_sender = Some ''tool'', kw_topic = Some ''tasks.start'', kw_payload = None,
       kw_message_id = None, kw_conversation_id = None, kw_in_reply_to = None,
       kw_timestamp = None, kw_priority = None, kw_token_count = None, kw_summary = None \<rparr>"

definition example_kwargs :: message_kwargs where
  "example_kwargs =
     \<lparr> kw_sender = Some ''start_new_task_tool'', kw_topic = Some ''tasks.start'',
       kw_payload = Some [(''task_name'', PStr ''x'')],
       kw_message_id = None, kw_conversation_id = None, kw_in_reply_to = None,
       kw_timestamp = None, kw_priority = Some 0.8, kw_token_count = None, kw_summary = None \<rparr>"

text \<open>
  The invariant of the lifecycle: the only task on which \<^verbatim>\<open>cancel()\<close> was not called is
  the one that \<^verbatim>\<open>_runner_task\<close> holds.
\<close>

definition runner_only :: "agent_protocol \<Rightarrow> bool" where
  "runner_only s = (uncancelled s = (case runner_task s of None \<Rightarrow> [] | Some t \<Rightarrow> [t]))"

text \<open>
  Handler 1 raises an exception outside \<^verbatim>\<open>Exception\<close>, such as \<^verbatim>\<open>SystemExit\<close> or
  \<^verbatim>\<open>KeyboardInterrupt\<close>.
\<close>

definition worker_exits :: handlers where
  "worker_exits h m = (if h = 1 then Raises BaseException else Returns)"

text \<open>
  A bus with the worker only, and a queue whose first message has no subscriber and whose
  second message has one.
\<close>

definition worker_only_queue :: agent_protocol where
  "worker_only_queue =
     publish task_message (publish other_message (subscribe ''tasks.start'' 1 init))"

section \<open>Auxiliary facts\<close>

subsection \<open>The handler loop and \<^verbatim>\<open>_dispatch\<close>\<close>

lemma for_handlers_ends:
  "list_all (ends_in_dispatch env m) hs \<Longrightarrow>
   for_handlers env m hs s =
     (None, s\<lparr>calls := calls s @ invocations m hs,
              logged := logged s @ map (\<lambda>h. handler_error m) (filter (\<lambda>h. env h m = Raises Exception) hs)\<rparr>)"
proof (induction hs arbitrary: s)
  case Nil
  then show ?case by (simp add: invocations_def)
next
  case (Cons h hs)
  then show ?case
    by (auto simp: invocations_def ends_in_dispatch_def Let_def)
qed

lemma for_handlers_prefix:
  "\<exists>k. calls (snd (for_handlers env m hs s)) = calls s @ invocations m (take k hs)"
proof (induction hs arbitrary: s)
  case Nil
  then show ?case by (simp add: invocations_def)
next
  case (Cons h hs)
  show ?case
  proof (cases "ends_in_dispatch env m h")
    case True
    let ?s1 = "s\<lparr>calls := calls s @ [(h, m)]\<rparr>"
    from True obtain s2 where s2: "for_handlers env m (h # hs) s = for_handlers env m hs s2" "calls s2 = calls s @ [(h, m)]"
      by (auto simp: ends_in_dispatch_def Let_def)
    from Cons.IH [of s2] obtain k where "calls (snd (for_handlers env m hs s2)) = calls s2 @ invocations m (take k hs)" ..
    with s2 have "calls (snd (for_handlers env m (h # hs) s)) = calls s @ invocations m (take (Suc k) (h # hs))"
      by (simp add: invocations_def)
    then show ?thesis ..
  next
    case False
    then have "calls (snd (for_handlers env m (h # hs) s)) = calls s @ invocations m (take (Suc 0) (h # hs))"
      by (cases "env h m"; cases "case env h m of Raises e \<Rightarrow> e | _ \<Rightarrow> Exception")
         (auto simp: ends_in_dispatch_def Let_def invocations_def)
    then show ?thesis ..
  qed
qed

lemma all_handlers_subscribers:
  "subscribers s' = subscribers s \<Longrightarrow> all_handlers s' m = all_handlers s m"
  by (simp add: all_handlers_def)

lemma deliveries_subscribers:
  "subscribers s' = subscribers s \<Longrightarrow> deliveries s' ms = deliveries s ms"
  by (simp add: deliveries_def all_handlers_def)

lemma loop_log_subscribers:
  "subscribers s' = subscribers s \<Longrightarrow> loop_log env s' ms = loop_log env s ms"
proof -
  assume "subscribers s' = subscribers s"
  then have "\<And>m. all_handlers s' m = all_handlers s m" by (simp add: all_handlers_def)
  then show ?thesis by (simp add: loop_log_def dispatch_log_def cong: if_cong)
qed

lemma dispatch_empty:
  "all_handlers s m = [] \<Longrightarrow>
   dispatch env m s = (None, s\<lparr>logged := logged s @ [no_subscribers_warning m]\<rparr>)"
  by (simp add: dispatch_def all_handlers_def Let_def)

lemma dispatch_nonempty:
  "all_handlers s m \<noteq> [] \<Longrightarrow> dispatch env m s = for_handlers env m (all_handlers s m) s"
  unfolding dispatch_def all_handlers_def Let_def by (simp only: if_False)

lemma dispatch_ends:
  assumes "list_all (ends_in_dispatch env m) (all_handlers s m)" and "all_handlers s m \<noteq> []"
  shows "dispatch env m s =
     (None, s\<lparr>calls := calls s @ invocations m (all_handlers s m),
              logged := logged s @ map (\<lambda>h. handler_error m)
                          (filter (\<lambda>h. env h m = Raises Exception) (all_handlers s m))\<rparr>)"
proof -
  have "dispatch env m s = for_handlers env m (all_handlers s m) s"
    using assms(2) by (rule dispatch_nonempty)
  then show ?thesis using for_handlers_ends [OF assms(1)] by simp
qed

lemma dispatch_ends_calls:
  assumes "list_all (ends_in_dispatch env m) (all_handlers s m)"
  shows "fst (dispatch env m s) = None \<and>
         calls (snd (dispatch env m s)) = calls s @ invocations m (all_handlers s m) \<and>
         logged (snd (dispatch env m s)) = logged s @ dispatch_log env s m"
proof (cases "all_handlers s m = []")
  case True
  then show ?thesis by (simp add: dispatch_empty invocations_def dispatch_log_def)
next
  case False
  then show ?thesis using dispatch_ends [OF assms] by (simp add: dispatch_log_def)
qed

lemma dispatch_prefix:
  "\<exists>k. calls (snd (dispatch env m s)) = calls s @ invocations m (take k (all_handlers s m))"
proof (cases "all_handlers s m = []")
  case True
  then have "calls (snd (dispatch env m s)) = calls s @ invocations m (take 0 (all_handlers s m))"
    by (simp add: dispatch_empty invocations_def)
  then show ?thesis ..
next
  case False
  then have "dispatch env m s = for_handlers env m (all_handlers s m) s"
    by (rule dispatch_nonempty)
  then show ?thesis using for_handlers_prefix [of env m "all_handlers s m" s] by simp
qed

lemma for_handlers_returns:
  "fst (for_handlers env m hs s) = None \<Longrightarrow> list_all (ends_in_dispatch env m) hs"
proof (induction hs arbitrary: s)
  case Nil
  then show ?case by simp
next
  case (Cons h hs)
  show ?case
  proof (cases "ends_in_dispatch env m h")
    case True
    with Cons show ?thesis
      by (auto simp: ends_in_dispatch_def Let_def)
  next
    case False
    then have "fst (for_handlers env m (h # hs) s) \<noteq> None"
      by (cases "env h m"; cases "case env h m of Raises e \<Rightarrow> e | _ \<Rightarrow> Exception")
         (auto simp: ends_in_dispatch_def Let_def)
    with Cons.prems show ?thesis by simp
  qed
qed

lemma dispatch_returns:
  assumes "fst (dispatch env m s) = None"
  shows "list_all (ends_in_dispatch env m) (all_handlers s m)"
proof (cases "all_handlers s m = []")
  case True
  then show ?thesis by simp
next
  case False
  then have "dispatch env m s = for_handlers env m (all_handlers s m) s"
    by (rule dispatch_nonempty)
  with assms show ?thesis using for_handlers_returns by simp
qed

lemma while_step:
  assumes "is_running s" and "message_queue s = m # q"
    and "list_all (ends_in_dispatch env m) (all_handlers s m)"
  shows "while_is_running env s =
         while_is_running env
           (snd (dispatch env m (s\<lparr>message_queue := q, logged := logged s @ [dequeued_debug m]\<rparr>)))"
proof -
  let ?s1 = "s\<lparr>message_queue := q, logged := logged s @ [dequeued_debug m]\<rparr>"
  have "all_handlers ?s1 m = all_handlers s m" by (simp add: all_handlers_def)
  with assms(3) have "fst (dispatch env m ?s1) = None"
    using dispatch_ends_calls [of env m ?s1] by simp
  then obtain s' where "dispatch env m ?s1 = (None, s')" by (cases "dispatch env m ?s1") auto
  then show ?thesis using assms(1,2) by (subst while_is_running.simps) simp
qed

lemma while_ends:
  assumes "is_running s"
    and "\<forall>m \<in> set (message_queue s). list_all (ends_in_dispatch env m) (all_handlers s m)"
  shows "fst (while_is_running env s) = Blocked_on_get \<and>
         calls (snd (while_is_running env s)) = calls s @ deliveries s (message_queue s) \<and>
         logged (snd (while_is_running env s)) = logged s @ loop_log env s (message_queue s) \<and>
         message_queue (snd (while_is_running env s)) = [] \<and>
         is_running (snd (while_is_running env s)) \<and>
         subscribers (snd (while_is_running env s)) = subscribers s \<and>
         runner_task (snd (while_is_running env s)) = runner_task s \<and>
         tasks (snd (while_is_running env s)) = tasks s"
  using assms
proof (induction "message_queue s" arbitrary: s)
  case Nil
  then have "while_is_running env s = (Blocked_on_get, s)"
    by (subst while_is_running.simps) simp
  with Nil show ?case by (simp add: deliveries_def loop_log_def)
next
  case (Cons m q)
  let ?s1 = "s\<lparr>message_queue := q, logged := logged s @ [dequeued_debug m]\<rparr>"
  let ?s2 = "snd (dispatch env m ?s1)"
  have mq: "message_queue s = m # q" using Cons.hyps(2) by simp
  have ah: "all_handlers ?s1 m = all_handlers s m" by (simp add: all_handlers_def)
  have dl: "dispatch_log env ?s1 m = dispatch_log env s m" by (simp add: dispatch_log_def ah)
  have ok: "list_all (ends_in_dispatch env m) (all_handlers s m)"
    using Cons.prems(2) mq by simp
  have step: "while_is_running env s = while_is_running env ?s2"
    using while_step [OF Cons.prems(1) mq ok] .
  have fr: "subscribers ?s2 = subscribers s" "message_queue ?s2 = q" "is_running ?s2"
       "runner_task ?s2 = runner_task s" "tasks ?s2 = tasks s"
    using dispatch_frame [of env m ?s1] Cons.prems(1) by simp_all
  have c2: "calls ?s2 = calls s @ invocations m (all_handlers s m)"
    using dispatch_ends_calls [of env m ?s1] ok ah by simp
  have l2: "logged ?s2 = logged s @ dequeued_debug m # dispatch_log env s m"
    using dispatch_ends_calls [of env m ?s1] ok ah dl by simp
  have pre: "\<forall>m' \<in> set (message_queue ?s2). list_all (ends_in_dispatch env m') (all_handlers ?s2 m')"
    using Cons.prems(2) mq fr(1,2) by (simp add: all_handlers_def)
  have IH: "fst (while_is_running env ?s2) = Blocked_on_get \<and>
         calls (snd (while_is_running env ?s2)) = calls ?s2 @ deliveries ?s2 (message_queue ?s2) \<and>
         logged (snd (while_is_running env ?s2)) = logged ?s2 @ loop_log env ?s2 (message_queue ?s2) \<and>
         message_queue (snd (while_is_running env ?s2)) = [] \<and>
         is_running (snd (while_is_running env ?s2)) \<and>
         subscribers (snd (while_is_running env ?s2)) = subscribers ?s2 \<and>
         runner_task (snd (while_is_running env ?s2)) = runner_task ?s2 \<and>
         tasks (snd (while_is_running env ?s2)) = tasks ?s2"
    using Cons.hyps(1) [of ?s2] fr(2,3) pre by simp
  have d: "deliveries ?s2 q = deliveries s q" using fr(1) by (rule deliveries_subscribers)
  have d2: "deliveries s (m # q) = invocations m (all_handlers s m) @ deliveries s q"
    by (simp add: deliveries_def)
  have g: "loop_log env ?s2 q = loop_log env s q"
    using fr(1) by (rule loop_log_subscribers)
  have g2: "loop_log env s (m # q) = dequeued_debug m # dispatch_log env s m @ loop_log env s q"
    by (simp add: loop_log_def)
  show ?case
    using IH step fr c2 l2 d d2 g g2 mq by simp
qed

lemma invocations_take_prefix:
  "prefix (invocations m (take k hs)) (invocations m hs @ rest)"
proof -
  have "invocations m hs = invocations m (take k hs) @ invocations m (drop k hs)"
    unfolding invocations_def by (metis append_take_drop_id map_append)
  then show ?thesis by (simp add: prefix_def)
qed

lemma after_loop_frame:
  "calls (after_loop s) = calls s \<and> message_queue (after_loop s) = message_queue s \<and>
   subscribers (after_loop s) = subscribers s \<and> runner_task (after_loop s) = runner_task s \<and>
   tasks (after_loop s) = tasks s \<and> \<not> is_running (after_loop s)"
  by (simp add: after_loop_def log_to_def)

lemma cancelled_in_loop_frame:
  "calls (snd (cancelled_in_loop s)) = calls s \<and>
   message_queue (snd (cancelled_in_loop s)) = message_queue s \<and>
   subscribers (snd (cancelled_in_loop s)) = subscribers s \<and>
   runner_task (snd (cancelled_in_loop s)) = runner_task s \<and>
   tasks (snd (cancelled_in_loop s)) = tasks s \<and>
   \<not> is_running (snd (cancelled_in_loop s))"
  by (simp add: cancelled_in_loop_def after_loop_def log_to_def)

lemma while_prefix:
  "\<exists>cs k. calls (snd (while_is_running env s)) = calls s @ cs \<and>
          prefix cs (deliveries s (message_queue s)) \<and>
          message_queue (snd (while_is_running env s)) = drop k (message_queue s) \<and>
          subscribers (snd (while_is_running env s)) = subscribers s \<and>
          runner_task (snd (while_is_running env s)) = runner_task s \<and>
          tasks (snd (while_is_running env s)) = tasks s"
proof (induction "message_queue s" arbitrary: s)
  case Nil
  have "while_is_running env s = (if is_running s then (Blocked_on_get, s) else (Returned, after_loop s))"
    using Nil by (subst while_is_running.simps) simp
  then have "calls (snd (while_is_running env s)) = calls s @ [] \<and>
          prefix [] (deliveries s (message_queue s)) \<and>
          message_queue (snd (while_is_running env s)) = drop 0 (message_queue s) \<and>
          subscribers (snd (while_is_running env s)) = subscribers s \<and>
          runner_task (snd (while_is_running env s)) = runner_task s \<and>
          tasks (snd (while_is_running env s)) = tasks s"
    by (simp add: after_loop_frame)
  then show ?case by blast
next
  case (Cons m q)
  have mq: "message_queue s = m # q" using Cons.hyps(2) by simp
  show ?case
  proof (cases "is_running s")
    case False
    then have "while_is_running env s = (Returned, after_loop s)"
      by (subst while_is_running.simps) simp
    then have "calls (snd (while_is_running env s)) = calls s @ [] \<and>
          prefix [] (deliveries s (message_queue s)) \<and>
          message_queue (snd (while_is_running env s)) = drop 0 (message_queue s) \<and>
          subscribers (snd (while_is_running env s)) = subscribers s \<and>
          runner_task (snd (while_is_running env s)) = runner_task s \<and>
          tasks (snd (while_is_running env s)) = tasks s"
      by (simp add: after_loop_frame)
    then show ?thesis by blast
  next
    case True
    let ?s1 = "s\<lparr>message_queue := q, logged := logged s @ [dequeued_debug m]\<rparr>"
    obtain x s2 where d: "dispatch env m ?s1 = (x, s2)" by (cases "dispatch env m ?s1")
    have ah: "all_handlers ?s1 m = all_handlers s m" by (simp add: all_handlers_def)
    have fr: "subscribers s2 = subscribers s" "message_queue s2 = q"
       "runner_task s2 = runner_task s" "tasks s2 = tasks s"
      using dispatch_frame [of env m ?s1] d by simp_all
    obtain k where k: "calls s2 = calls s @ invocations m (take k (all_handlers s m))"
      using dispatch_prefix [of env m ?s1] d ah by auto
    have d2: "deliveries s (m # q) = invocations m (all_handlers s m) @ deliveries s q"
      by (simp add: deliveries_def)
    have pk: "prefix (invocations m (take k (all_handlers s m))) (deliveries s (m # q))"
      unfolding d2 by (rule invocations_take_prefix)
    show ?thesis
    proof (cases x)
      case None
      then have w: "while_is_running env s = while_is_running env s2"
        using True mq d by (subst while_is_running.simps) simp
      have "list_all (ends_in_dispatch env m) (all_handlers s m)"
        using dispatch_returns [of env m ?s1] d None ah by simp
      then have full: "calls s2 = calls s @ invocations m (all_handlers s m)"
        using dispatch_ends_calls [of env m ?s1] d ah by simp
      from Cons.hyps(1) [of s2] fr(2)
      obtain cs j where IH: "calls (snd (while_is_running env s2)) = calls s2 @ cs"
          "prefix cs (deliveries s2 (message_queue s2))"
          "message_queue (snd (while_is_running env s2)) = drop j (message_queue s2)"
          "subscribers (snd (while_is_running env s2)) = subscribers s2"
          "runner_task (snd (while_is_running env s2)) = runner_task s2"
          "tasks (snd (while_is_running env s2)) = tasks s2"
        by auto
      have "deliveries s2 q = deliveries s q" using fr(1) by (rule deliveries_subscribers)
      with IH(2) fr(2) have "prefix (invocations m (all_handlers s m) @ cs) (deliveries s (m # q))"
        by (simp add: d2)
      with IH full fr w mq
      have "calls (snd (while_is_running env s)) = calls s @ (invocations m (all_handlers s m) @ cs) \<and>
          prefix (invocations m (all_handlers s m) @ cs) (deliveries s (message_queue s)) \<and>
          message_queue (snd (while_is_running env s)) = drop (Suc j) (message_queue s) \<and>
          subscribers (snd (while_is_running env s)) = subscribers s \<and>
          runner_task (snd (while_is_running env s)) = runner_task s \<and>
          tasks (snd (while_is_running env s)) = tasks s"
        by simp
      then show ?thesis by blast
    next
      case (Some e)
      have w: "while_is_running env s = (if e = CancelledError then cancelled_in_loop s2 else (Failed e, s2))"
        using True mq d Some by (subst while_is_running.simps) (cases e; simp)
      have "calls (snd (while_is_running env s)) = calls s @ invocations m (take k (all_handlers s m)) \<and>
          prefix (invocations m (take k (all_handlers s m))) (deliveries s (message_queue s)) \<and>
          message_queue (snd (while_is_running env s)) = drop (Suc 0) (message_queue s) \<and>
          subscribers (snd (while_is_running env s)) = subscribers s \<and>
          runner_task (snd (while_is_running env s)) = runner_task s \<and>
          tasks (snd (while_is_running env s)) = tasks s"
        using w k pk fr mq by (simp add: cancelled_in_loop_frame)
      then show ?thesis by blast
    qed
  qed
qed

lemma invoked_by_dispatch_ends:
  assumes "list_all (ends_in_dispatch env m) (all_handlers s m)"
  shows "invoked_by_dispatch env m s = invocations m (all_handlers s m)"
  using dispatch_ends_calls [OF assms] by (simp add: invoked_by_dispatch_def)

lemma subscribe_lists:
  "get_or_empty (subscribers (subscribe tp h s)) tp' =
     (if tp' = tp then get_or_empty (subscribers s) tp @ [h] else get_or_empty (subscribers s) tp')"
  by (simp add: subscribe_def log_to_def get_or_empty_def)

subsection \<open>The bus of \<^verbatim>\<open>examples/fastmcp/pubsub_example.py\<close>\<close>

text \<open>
  Handler 1 is \<^verbatim>\<open>worker_agent_handler\<close>, subscribed to \<^verbatim>\<open>tasks.start\<close>; handler 2 is
  \<^verbatim>\<open>supervisor_agent_handler\<close>, subscribed to \<^verbatim>\<open>*\<close>.
\<close>

lemma example_bus_subscribers:
  "get_or_empty (subscribers example_bus) ''tasks.start'' = [1]"
  "get_or_empty (subscribers example_bus) ''*'' = [2]"
  "get_or_empty (subscribers example_bus) ''b'' = []"
  by (simp_all add: example_bus_def subscribe_def log_to_def init_def get_or_empty_def)

lemma example_queue_state:
  "message_queue example_queue = [task_message, other_message]"
  "subscribers example_queue = subscribers example_bus"
  "calls example_queue = []"
  by (simp_all add: example_queue_def publish_def log_to_def example_bus_def subscribe_def init_def)

lemma example_all_handlers:
  "subscribers s = subscribers example_bus \<Longrightarrow> all_handlers s task_message = [1, 2]"
  "subscribers s = subscribers example_bus \<Longrightarrow> all_handlers s other_message = [2]"
  using example_bus_subscribers
  by (simp_all add: all_handlers_def task_message_def other_message_def)

lemma unsubscribe_lists:
  "get_or_empty (subscribers (unsubscribe tp h s)) tp' =
     (if tp' = tp then remove1 h (get_or_empty (subscribers s) tp) else get_or_empty (subscribers s) tp')"
  by (simp add: unsubscribe_def log_to_def get_or_empty_def Let_def remove1_idem split: option.splits)

lemma remove1_last_occurrence:
  "count_list xs h \<le> 1 \<Longrightarrow> h \<notin> set (remove1 h xs)"
proof (induction xs)
  case Nil
  then show ?case by simp
next
  case (Cons x xs)
  show ?case
  proof (cases "x = h")
    case True
    with Cons.prems have "count_list xs h = 0" by simp
    then have "h \<notin> set xs" by (simp add: count_list_0_iff)
    with True show ?thesis by simp
  next
    case False
    with Cons show ?thesis by simp
  qed
qed

lemma invoked_by_dispatch_subset:
  "fst ` set (invoked_by_dispatch env m s) \<subseteq> set (all_handlers s m)"
proof -
  obtain k where "calls (snd (dispatch env m s)) = calls s @ invocations m (take k (all_handlers s m))"
    using dispatch_prefix by blast
  then have "invoked_by_dispatch env m s = invocations m (take k (all_handlers s m))"
    by (simp add: invoked_by_dispatch_def)
  then have "fst ` set (invoked_by_dispatch env m s) = set (take k (all_handlers s m))"
    by (simp add: invocations_def image_image)
  then show ?thesis using set_take_subset by fastforce
qed

lemma publish_all_queue:
  "message_queue (foldl (\<lambda>s m. publish m s) s ms) = message_queue s @ ms \<and>
   subscribers (foldl (\<lambda>s m. publish m s) s ms) = subscribers s \<and>
   calls (foldl (\<lambda>s m. publish m s) s ms) = calls s"
  by (induction ms arbitrary: s) (simp_all add: publish_def log_to_def)

lemma invoked_by_loop_prefix:
  "prefix (invoked_by_loop env s) (deliveries s (message_queue s))"
proof -
  obtain cs k where "calls (snd (while_is_running env s)) = calls s @ cs"
      "prefix cs (deliveries s (message_queue s))"
    using while_prefix [of env s] by blast
  then show ?thesis by (simp add: invoked_by_loop_def)
qed

lemma for_handlers_append:
  "list_all (ends_in_dispatch env m) pre \<Longrightarrow>
   for_handlers env m (pre @ rest) s =
     for_handlers env m rest
       (s\<lparr>calls := calls s @ invocations m pre,
          logged := logged s @ map (\<lambda>h. handler_error m) (filter (\<lambda>h. env h m = Raises Exception) pre)\<rparr>)"
proof (induction pre arbitrary: s)
  case Nil
  then show ?case by (simp add: invocations_def)
next
  case (Cons h pre)
  then show ?case
    by (auto simp: invocations_def ends_in_dispatch_def Let_def)
qed

lemma while_cancelled:
  assumes "is_running s" and "message_queue s = m # q"
    and "all_handlers s m = pre @ h # post"
    and "list_all (ends_in_dispatch env m) pre"
    and "env h m = Raises CancelledError"
  shows "while_is_running env s =
     cancelled_in_loop
       (s\<lparr>message_queue := q,
          logged := logged s @ dequeued_debug m #
                      map (\<lambda>h. handler_error m) (filter (\<lambda>h. env h m = Raises Exception) pre),
          calls := calls s @ invocations m (pre @ [h])\<rparr>)"
proof -
  let ?s1 = "s\<lparr>message_queue := q, logged := logged s @ [dequeued_debug m]\<rparr>"
  have ah: "all_handlers ?s1 m = pre @ h # post" using assms(3) by (simp add: all_handlers_def)
  then have "dispatch env m ?s1 = for_handlers env m (pre @ h # post) ?s1"
    using dispatch_nonempty [of ?s1 m env] by simp
  also have "\<dots> = for_handlers env m (h # post)
       (?s1\<lparr>calls := calls ?s1 @ invocations m pre,
          logged := logged ?s1 @ map (\<lambda>h. handler_error m) (filter (\<lambda>h. env h m = Raises Exception) pre)\<rparr>)"
    using assms(4) by (rule for_handlers_append)
  also have "\<dots> = (Some CancelledError,
       s\<lparr>message_queue := q,
          logged := logged s @ dequeued_debug m #
                      map (\<lambda>h. handler_error m) (filter (\<lambda>h. env h m = Raises Exception) pre),
          calls := calls s @ invocations m (pre @ [h])\<rparr>)"
    using assms(5) by (simp add: Let_def invocations_def)
  finally show ?thesis
    using assms(1,2) by (subst while_is_running.simps) simp
qed

lemma uncancelled_append:
  "uncancelled (s\<lparr>tasks := tasks s @ [False]\<rparr>) = uncancelled s @ [length (tasks s)]"
proof -
  have "filter (\<lambda>t. \<not> (tasks s @ [False]) ! t) [0..<length (tasks s)] =
        filter (\<lambda>t. \<not> tasks s ! t) [0..<length (tasks s)]"
    by (rule filter_cong) (simp_all add: nth_append)
  then show ?thesis by (simp add: uncancelled_def)
qed

lemma uncancelled_cancel:
  "uncancelled (s\<lparr>tasks := (tasks s)[t := True]\<rparr>) = filter (\<lambda>i. i \<noteq> t) (uncancelled s)"
proof -
  have "filter (\<lambda>i. \<not> (tasks s)[t := True] ! i) [0..<length (tasks s)] =
        filter (\<lambda>i. i \<noteq> t \<and> \<not> tasks s ! i) [0..<length (tasks s)]"
  proof (rule filter_cong)
    fix i
    assume "i \<in> set [0..<length (tasks s)]"
    then have "i < length (tasks s)" by simp
    then show "(\<not> (tasks s)[t := True] ! i) = (i \<noteq> t \<and> \<not> tasks s ! i)"
      by (cases "i = t") simp_all
  qed simp
  then show ?thesis by (simp add: uncancelled_def conj_commute)
qed

lemma runner_only_same:
  "tasks s' = tasks s \<Longrightarrow> runner_task s' = runner_task s \<Longrightarrow> runner_only s \<Longrightarrow> runner_only s'"
  by (simp add: runner_only_def uncancelled_def)

lemma runner_only_run: "runner_only s \<Longrightarrow> runner_only (run s)"
proof -
  assume inv: "runner_only s"
  show ?thesis
  proof (cases "\<not> is_running s \<and> runner_task s = None")
    case True
    then have r: "run s = s\<lparr>runner_task := Some (length (tasks s)), tasks := tasks s @ [False]\<rparr>"
      by (simp add: run_def)
    have "uncancelled s = []" using inv True by (simp add: runner_only_def)
    moreover have "uncancelled (run s) = uncancelled s @ [length (tasks s)]"
      using uncancelled_append [of s] by (simp add: r uncancelled_def)
    ultimately show ?thesis by (simp add: runner_only_def r)
  next
    case False
    then have "run s = log_to WARNING ''Protocol runner is already running.'' s"
      by (auto simp: run_def)
    then show ?thesis using inv by (simp add: runner_only_def uncancelled_def log_to_def)
  qed
qed

lemma runner_only_stop: "runner_only s \<Longrightarrow> runner_only (stop s)"
proof -
  assume inv: "runner_only s"
  show ?thesis
  proof (cases "runner_task s")
    case None
    then show ?thesis using inv
      by (simp add: runner_only_def uncancelled_def stop_def log_to_def Let_def)
  next
    case (Some t)
    then have u: "uncancelled s = [t]" using inv by (simp add: runner_only_def)
    have "uncancelled (stop s) = filter (\<lambda>i. i \<noteq> t) (uncancelled s)"
      using uncancelled_cancel [of s t] Some
      by (simp add: stop_def log_to_def Let_def uncancelled_def)
    then show ?thesis using u Some
      by (simp add: runner_only_def stop_def log_to_def Let_def)
  qed
qed

lemma runner_only_exec: "runner_only s \<Longrightarrow> runner_only (exec env s e)"
proof (cases e)
  case (Subscribe tp h)
  assume "runner_only s"
  then show ?thesis using Subscribe
    by (simp add: runner_only_def uncancelled_def subscribe_def log_to_def Let_def)
next
  case (Unsubscribe tp h)
  assume "runner_only s"
  then show ?thesis using Unsubscribe
    by (simp add: runner_only_def uncancelled_def unsubscribe_def log_to_def Let_def)
next
  case (Publish m)
  assume "runner_only s"
  then show ?thesis using Publish
    by (simp add: runner_only_def uncancelled_def publish_def log_to_def Let_def)
next
  case Run
  assume "runner_only s"
  then show ?thesis using Run by (simp add: runner_only_run)
next
  case Stop
  assume "runner_only s"
  then show ?thesis using Stop by (simp add: runner_only_stop)
next
  case Loop_starts
  assume inv: "runner_only s"
  let ?s0 = "log_to INFO ''Agent protocol runner starting...'' (s\<lparr>is_running := True\<rparr>)"
  have "tasks (snd (while_is_running env ?s0)) = tasks ?s0"
       "runner_task (snd (while_is_running env ?s0)) = runner_task ?s0"
    using while_prefix [of env ?s0] by auto
  then have "tasks (snd (run_loop env s)) = tasks s" "runner_task (snd (run_loop env s)) = runner_task s"
    by (simp_all add: run_loop_def log_to_def)
  then show ?thesis using inv Loop_starts by (simp add: runner_only_same)
next
  case Loop_resumes
  assume inv: "runner_only s"
  have "tasks (snd (while_is_running env s)) = tasks s"
       "runner_task (snd (while_is_running env s)) = runner_task s"
    using while_prefix [of env s] by auto
  then show ?thesis using inv Loop_resumes by (simp add: runner_only_same)
next
  case Loop_cancelled
  assume inv: "runner_only s"
  then show ?thesis using Loop_cancelled cancelled_in_loop_frame [of s]
    by (simp add: runner_only_same)
qed

lemma runner_only_history: "runner_only (history env evs)"
proof (induction evs rule: rev_induct)
  case Nil
  then show ?case by (simp add: history_def runner_only_def uncancelled_def init_def)
next
  case (snoc e evs)
  then show ?case by (simp add: history_def runner_only_exec)
qed

lemma while_failed:
  assumes "is_running s" and "message_queue s = m # q"
    and "all_handlers s m = pre @ h # post"
    and "list_all (ends_in_dispatch env m) pre"
    and "env h m = Raises BaseException"
  shows "while_is_running env s =
     (Failed BaseException,
      s\<lparr>message_queue := q,
         logged := logged s @ dequeued_debug m #
                     map (\<lambda>h. handler_error m) (filter (\<lambda>h. env h m = Raises Exception) pre),
         calls := calls s @ invocations m (pre @ [h])\<rparr>)"
proof -
  let ?s1 = "s\<lparr>message_queue := q, logged := logged s @ [dequeued_debug m]\<rparr>"
  have ah: "all_handlers ?s1 m = pre @ h # post" using assms(3) by (simp add: all_handlers_def)
  then have "dispatch env m ?s1 = for_handlers env m (pre @ h # post) ?s1"
    using dispatch_nonempty [of ?s1 m env] by simp
  also have "\<dots> = for_handlers env m (h # post)
       (?s1\<lparr>calls := calls ?s1 @ invocations m pre,
          logged := logged ?s1 @ map (\<lambda>h. handler_error m) (filter (\<lambda>h. env h m = Raises Exception) pre)\<rparr>)"
    using assms(4) by (rule for_handlers_append)
  also have "\<dots> = (Some BaseException,
       s\<lparr>message_queue := q,
          logged := logged s @ dequeued_debug m #
                      map (\<lambda>h. handler_error m) (filter (\<lambda>h. env h m = Raises Exception) pre),
          calls := calls s @ invocations m (pre @ [h])\<rparr>)"
    using assms(5) by (simp add: Let_def invocations_def)
  finally show ?thesis
    using assms(1,2) by (subst while_is_running.simps) simp
qed

lemma worker_only_queue_state:
  "message_queue worker_only_queue = [other_message, task_message]"
  "calls worker_only_queue = []"
  "get_or_empty (subscribers worker_only_queue) ''tasks.start'' = [1]"
  "get_or_empty (subscribers worker_only_queue) ''b'' = []"
  "get_or_empty (subscribers worker_only_queue) ''*'' = []"
  by (simp_all add: worker_only_queue_def publish_def subscribe_def log_to_def init_def
      get_or_empty_def)

section \<open>The claims\<close>

text \<open>
  C1. For a message \<open>M\<close> with topic \<open>T\<close>, let \<open>hs\<close> be the handlers registered for \<open>T\<close>
  and \<open>ws\<close> the handlers registered for \<^verbatim>\<open>*\<close>, each in subscription order
  (\<^verbatim>\<open>subscribe\<close> appends to the end of its topic's list). When every invocation ends
  (it returns or raises an \<^verbatim>\<open>Exception\<close>), \<^verbatim>\<open>_dispatch\<close> returns and has invoked
  exactly \<open>hs\<close> and then \<open>ws\<close>, each entry once and with \<open>M\<close>; a handler that occurs
  several times is invoked once per occurrence.
\<close>

theorem dispatch_exact_then_wildcard:
  assumes "get_or_empty (subscribers s) (topic M) = hs"
    and "get_or_empty (subscribers s) ''*'' = ws"
    and "list_all (ends_in_dispatch env M) (hs @ ws)"
  shows "fst (dispatch env M s) = None \<and>
         invoked_by_dispatch env M s = map (\<lambda>h. (h, M)) hs @ map (\<lambda>w. (w, M)) ws \<and>
         get_or_empty (subscribers (subscribe T h s)) T = get_or_empty (subscribers s) T @ [h]"
proof -
  have ah: "all_handlers s M = hs @ ws" using assms(1,2) by (simp add: all_handlers_def)
  with assms(3) have ok: "list_all (ends_in_dispatch env M) (all_handlers s M)" by simp
  have "fst (dispatch env M s) = None" using dispatch_ends_calls [OF ok] by simp
  moreover have "invoked_by_dispatch env M s = map (\<lambda>h. (h, M)) hs @ map (\<lambda>w. (w, M)) ws"
    using invoked_by_dispatch_ends [OF ok] ah by (simp add: invocations_def)
  ultimately show ?thesis by (simp add: subscribe_lists)
qed

theorem dispatch_exact_then_wildcard_witness:
  "fst (dispatch worker_raises task_message example_bus) = None \<and>
   invoked_by_dispatch worker_raises task_message example_bus = [(1, task_message), (2, task_message)]"
  using dispatch_exact_then_wildcard [of example_bus task_message "[1]" "[2]" worker_raises]
  by (simp add: example_bus_subscribers task_message_def ends_in_dispatch_def worker_raises_def)

text \<open>
  C2 as stated fails. On the example bus the worker (handler 1) raises an exception that
  is not an \<^verbatim>\<open>Exception\<close>: \<^verbatim>\<open>except Exception\<close> does not catch it, the supervisor
  (handler 2), resolved for the same message, is not invoked, the coroutine ends with
  that exception and the next message stays in the queue.
\<close>

theorem handler_exit_stops_loop_counterexample:
  "all_handlers example_queue task_message = [1, 2] \<and>
   fst (run_loop worker_exits example_queue) = Failed BaseException \<and>
   calls (snd (run_loop worker_exits example_queue)) = [(1, task_message)] \<and>
   message_queue (snd (run_loop worker_exits example_queue)) = [other_message]"
proof -
  define s0 where "s0 = log_to INFO ''Agent protocol runner starting...'' (example_queue\<lparr>is_running := True\<rparr>)"
  have s: "is_running s0" "message_queue s0 = [task_message, other_message]"
    "subscribers s0 = subscribers example_bus" "calls s0 = []"
    by (simp_all add: s0_def log_to_def example_queue_state)
  have ah: "all_handlers s0 task_message = [] @ 1 # [2]"
    using example_all_handlers(1) [OF s(3)] by simp
  have c: "worker_exits 1 task_message = Raises BaseException"
    by (simp add: worker_exits_def)
  have "while_is_running worker_exits s0 =
     (Failed BaseException,
      s0\<lparr>message_queue := [other_message],
          logged := logged s0 @ dequeued_debug task_message #
                      map (\<lambda>h. handler_error task_message)
                        (filter (\<lambda>h. worker_exits h task_message = Raises Exception) []),
          calls := calls s0 @ invocations task_message ([] @ [1])\<rparr>)"
    using s(1,2) ah _ c by (rule while_failed) simp
  then have "fst (while_is_running worker_exits s0) = Failed BaseException \<and>
      calls (snd (while_is_running worker_exits s0)) = [(1, task_message)] \<and>
      message_queue (snd (while_is_running worker_exits s0)) = [other_message]"
    by (simp add: invocations_def s(4))
  moreover have "run_loop worker_exits example_queue = while_is_running worker_exits s0"
    by (simp add: run_loop_def s0_def)
  moreover have "all_handlers example_queue task_message = [1, 2]"
    using example_queue_state(2) by (rule example_all_handlers)
  ultimately show ?thesis by simp
qed

text \<open>
  C2, amended. When everything the handlers raise on the queued messages is an
  \<^verbatim>\<open>Exception\<close>, the loop dispatches the whole queue and then waits in \<^verbatim>\<open>get\<close>, still
  running: every handler resolved for every queued message is invoked, whatever the
  handlers before it did, and the log has one \<^verbatim>\<open>logging.exception\<close> line, with topic
  and message id, for each invocation that raised.
\<close>

theorem handler_errors_contained:
  assumes "is_running s"
    and "\<forall>m \<in> set (message_queue s). list_all (ends_in_dispatch env m) (all_handlers s m)"
  shows "fst (while_is_running env s) = Blocked_on_get \<and>
         is_running (snd (while_is_running env s)) \<and>
         message_queue (snd (while_is_running env s)) = [] \<and>
         invoked_by_loop env s = deliveries s (message_queue s) \<and>
         logged (snd (while_is_running env s)) = logged s @ loop_log env s (message_queue s)"
  using while_ends [OF assms] by (simp add: invoked_by_loop_def)

theorem handler_errors_contained_witness:
  "fst (run_loop worker_raises example_queue) = Blocked_on_get \<and>
   calls (snd (run_loop worker_raises example_queue)) =
     [(1, task_message), (2, task_message), (2, other_message)] \<and>
   drop (length (logged example_queue) + 1) (logged (snd (run_loop worker_raises example_queue))) =
     [dequeued_debug task_message, handler_error task_message, dequeued_debug other_message]"
proof -
  let ?s = "log_to INFO ''Agent protocol runner starting...'' (example_queue\<lparr>is_running := True\<rparr>)"
  have s: "is_running ?s" "message_queue ?s = [task_message, other_message]"
    "subscribers ?s = subscribers example_bus" "calls ?s = []"
    "logged ?s = logged example_queue @ [(INFO, ''Agent protocol runner starting...'')]"
    by (simp_all add: log_to_def example_queue_state)
  have ah: "all_handlers ?s task_message = [1, 2]" "all_handlers ?s other_message = [2]"
    using s(3) by (rule example_all_handlers)+
  have hyp: "\<forall>m \<in> set (message_queue ?s). list_all (ends_in_dispatch worker_raises m) (all_handlers ?s m)"
    by (simp add: s(2) ah ends_in_dispatch_def worker_raises_def)
  have d: "deliveries ?s [task_message, other_message] =
       [(1, task_message), (2, task_message), (2, other_message)]"
    by (simp add: deliveries_def invocations_def ah)
  have l: "loop_log worker_raises ?s [task_message, other_message] =
       [dequeued_debug task_message, handler_error task_message, dequeued_debug other_message]"
    by (simp add: loop_log_def dispatch_log_def ah worker_raises_def)
  from handler_errors_contained [OF s(1) hyp] s d l
  have "fst (while_is_running worker_raises ?s) = Blocked_on_get"
    "invoked_by_loop worker_raises ?s = [(1, task_message), (2, task_message), (2, other_message)]"
    "logged (snd (while_is_running worker_raises ?s)) =
       (logged example_queue @ [(INFO, ''Agent protocol runner starting...'')]) @
       [dequeued_debug task_message, handler_error task_message, dequeued_debug other_message]"
    by simp_all
  then show ?thesis
    by (simp add: run_loop_def invoked_by_loop_def s(4))
qed

text \<open>
  C3. When no handler is registered for the topic of \<open>M\<close> and none for \<^verbatim>\<open>*\<close>,
  \<^verbatim>\<open>_dispatch\<close> invokes nothing, logs one warning that names the topic and the message
  id, and returns without an exception; \<^verbatim>\<open>publish\<close> of \<open>M\<close> only enqueues it; and a
  running loop that finds \<open>M\<close> at the front of its queue drops it and proceeds: it
  dispatches the messages queued behind \<open>M\<close> to all of their handlers, logs their lines
  after the warning, and waits in \<^verbatim>\<open>get\<close> with the queue drained.
\<close>

theorem no_subscribers_logged_and_dropped:
  assumes "get_or_empty (subscribers s) (topic M) = []"
    and "get_or_empty (subscribers s) ''*'' = []"
  shows "dispatch env M s =
           (None, s\<lparr>logged := logged s @
              [(WARNING, ''No subscribers for topic: '' @ [CHR 0x27] @ topic M @ [CHR 0x27] @
                         ''. Message ID: '' @ message_id M)]\<rparr>) \<and>
         invoked_by_dispatch env M s = [] \<and>
         message_queue (publish M s) = message_queue s @ [M] \<and>
         while_is_running env (s\<lparr>is_running := True, message_queue := M # q\<rparr>) =
           while_is_running env
             (s\<lparr>is_running := True, message_queue := q,
                logged := logged s @ [dequeued_debug M, no_subscribers_warning M]\<rparr>) \<and>
         (is_running s \<and> message_queue s = M # q \<and>
          (\<forall>m \<in> set q. list_all (ends_in_dispatch env m) (all_handlers s m))
            \<longrightarrow> fst (while_is_running env s) = Blocked_on_get \<and>
                invoked_by_loop env s = deliveries s q \<and>
                message_queue (snd (while_is_running env s)) = [] \<and>
                is_running (snd (while_is_running env s)) \<and>
                logged (snd (while_is_running env s)) =
                  logged s @ dequeued_debug M # no_subscribers_warning M # loop_log env s q)"
proof -
  have e: "all_handlers s M = []" using assms by (simp add: all_handlers_def)
  have d: "dispatch env M s = (None, s\<lparr>logged := logged s @ [no_subscribers_warning M]\<rparr>)"
    using e by (rule dispatch_empty)
  have i: "invoked_by_dispatch env M s = []" using d by (simp add: invoked_by_dispatch_def)
  let ?s0 = "s\<lparr>is_running := True, message_queue := M # q\<rparr>"
  let ?s1 = "?s0\<lparr>message_queue := q, logged := logged ?s0 @ [dequeued_debug M]\<rparr>"
  have "all_handlers ?s1 M = []" using e by (simp add: all_handlers_def)
  then have "dispatch env M ?s1 = (None, ?s1\<lparr>logged := logged ?s1 @ [no_subscribers_warning M]\<rparr>)"
    by (rule dispatch_empty)
  then have w: "while_is_running env ?s0 =
      while_is_running env (?s1\<lparr>logged := logged ?s1 @ [no_subscribers_warning M]\<rparr>)"
    by (subst while_is_running.simps) simp
  have first: "dispatch env M s =
           (None, s\<lparr>logged := logged s @
              [(WARNING, ''No subscribers for topic: '' @ [CHR 0x27] @ topic M @ [CHR 0x27] @
                         ''. Message ID: '' @ message_id M)]\<rparr>) \<and>
         invoked_by_dispatch env M s = [] \<and>
         message_queue (publish M s) = message_queue s @ [M] \<and>
         while_is_running env (s\<lparr>is_running := True, message_queue := M # q\<rparr>) =
           while_is_running env
             (s\<lparr>is_running := True, message_queue := q,
                logged := logged s @ [dequeued_debug M, no_subscribers_warning M]\<rparr>)"
    using d i w by (simp add: no_subscribers_warning_def publish_def log_to_def)
  have next_message: "is_running s \<and> message_queue s = M # q \<and>
          (\<forall>m \<in> set q. list_all (ends_in_dispatch env m) (all_handlers s m))
            \<longrightarrow> fst (while_is_running env s) = Blocked_on_get \<and>
                invoked_by_loop env s = deliveries s q \<and>
                message_queue (snd (while_is_running env s)) = [] \<and>
                is_running (snd (while_is_running env s)) \<and>
                logged (snd (while_is_running env s)) =
                  logged s @ dequeued_debug M # no_subscribers_warning M # loop_log env s q"
  proof
    assume a: "is_running s \<and> message_queue s = M # q \<and>
          (\<forall>m \<in> set q. list_all (ends_in_dispatch env m) (all_handlers s m))"
    then have r: "is_running s" and mq: "message_queue s = M # q" by simp_all
    have h: "\<forall>m \<in> set (message_queue s). list_all (ends_in_dispatch env m) (all_handlers s m)"
      using a e by auto
    have dl: "deliveries s (M # q) = deliveries s q"
      by (simp add: deliveries_def e invocations_def)
    have ll: "loop_log env s (M # q) = dequeued_debug M # no_subscribers_warning M # loop_log env s q"
      by (simp add: loop_log_def dispatch_log_def e)
    show "fst (while_is_running env s) = Blocked_on_get \<and>
                invoked_by_loop env s = deliveries s q \<and>
                message_queue (snd (while_is_running env s)) = [] \<and>
                is_running (snd (while_is_running env s)) \<and>
                logged (snd (while_is_running env s)) =
                  logged s @ dequeued_debug M # no_subscribers_warning M # loop_log env s q"
      using while_ends [OF r h] by (simp add: invoked_by_loop_def mq dl ll)
  qed
  show ?thesis using first next_message by blast
qed

theorem no_subscribers_logged_and_dropped_witness:
  "dispatch all_return other_message init =
     (None, init\<lparr>logged := [(WARNING, ''No subscribers for topic: '' @ [CHR 0x27] @ ''b'' @ [CHR 0x27] @
                         ''. Message ID: m-2'')]\<rparr>) \<and>
   invoked_by_dispatch all_return other_message init = [] \<and>
   fst (while_is_running all_return (worker_only_queue\<lparr>is_running := True\<rparr>)) = Blocked_on_get \<and>
   invoked_by_loop all_return (worker_only_queue\<lparr>is_running := True\<rparr>) = [(1, task_message)] \<and>
   message_queue (snd (while_is_running all_return (worker_only_queue\<lparr>is_running := True\<rparr>))) = [] \<and>
   drop (length (logged worker_only_queue))
     (logged (snd (while_is_running all_return (worker_only_queue\<lparr>is_running := True\<rparr>)))) =
     [dequeued_debug other_message, no_subscribers_warning other_message,
      dequeued_debug task_message]"
proof -
  define s0 where "s0 = worker_only_queue\<lparr>is_running := True\<rparr>"
  have s: "is_running s0" "message_queue s0 = other_message # [task_message]"
    "logged s0 = logged worker_only_queue"
    by (simp_all add: s0_def worker_only_queue_state)
  have sub: "get_or_empty (subscribers s0) (topic other_message) = []"
    "get_or_empty (subscribers s0) ''*'' = []"
    "all_handlers s0 task_message = [1]"
    by (simp_all add: s0_def worker_only_queue_state other_message_def task_message_def
        all_handlers_def)
  have hyp: "is_running s0 \<and> message_queue s0 = other_message # [task_message] \<and>
      (\<forall>m \<in> set [task_message]. list_all (ends_in_dispatch all_return m) (all_handlers s0 m))"
    by (simp add: s sub ends_in_dispatch_def all_return_def)
  have loop: "fst (while_is_running all_return s0) = Blocked_on_get \<and>
      invoked_by_loop all_return s0 = deliveries s0 [task_message] \<and>
      message_queue (snd (while_is_running all_return s0)) = [] \<and>
      is_running (snd (while_is_running all_return s0)) \<and>
      logged (snd (while_is_running all_return s0)) =
        logged s0 @ dequeued_debug other_message # no_subscribers_warning other_message #
          loop_log all_return s0 [task_message]"
    using no_subscribers_logged_and_dropped [OF sub(1,2), of all_return "[task_message]"] hyp
    by blast
  have d: "deliveries s0 [task_message] = [(1, task_message)]"
    by (simp add: deliveries_def invocations_def sub)
  have l: "loop_log all_return s0 [task_message] = [dequeued_debug task_message]"
    by (simp add: loop_log_def dispatch_log_def sub all_return_def)
  have a: "dispatch all_return other_message init =
     (None, init\<lparr>logged := [(WARNING, ''No subscribers for topic: '' @ [CHR 0x27] @ ''b'' @ [CHR 0x27] @
                         ''. Message ID: m-2'')]\<rparr>) \<and>
   invoked_by_dispatch all_return other_message init = []"
    using no_subscribers_logged_and_dropped [of init other_message all_return]
    by (simp add: init_def get_or_empty_def other_message_def)
  show ?thesis
    using a loop unfolding s0_def [symmetric] by (simp add: d l s(3))
qed

text \<open>
  C10. For a message whose topic is the string \<^verbatim>\<open>*\<close>, both lookups of \<^verbatim>\<open>_dispatch\<close>
  return the list registered under \<^verbatim>\<open>*\<close>, so the dispatch runs through that list
  twice: every handler is invoked twice as often as it is registered there.
\<close>

theorem wildcard_topic_invokes_twice:
  assumes "topic M = ''*''"
    and "get_or_empty (subscribers s) ''*'' = ws"
    and "list_all (ends_in_dispatch env M) ws"
  shows "invoked_by_dispatch env M s = invocations M ws @ invocations M ws \<and>
         count_list (map fst (invoked_by_dispatch env M s)) h = 2 * count_list ws h"
proof -
  have ah: "all_handlers s M = ws @ ws" using assms(1,2) by (simp add: all_handlers_def)
  with assms(3) have ok: "list_all (ends_in_dispatch env M) (all_handlers s M)" by simp
  have i: "invoked_by_dispatch env M s = invocations M ws @ invocations M ws"
    using invoked_by_dispatch_ends [OF ok] ah by (simp add: invocations_def)
  have "map fst (invocations M ws) = ws" by (simp add: invocations_def comp_def)
  then show ?thesis using i by simp
qed

theorem wildcard_topic_invokes_twice_witness:
  "invoked_by_dispatch all_return wildcard_message example_bus =
     [(2, wildcard_message), (2, wildcard_message)] \<and>
   count_list (map fst (invoked_by_dispatch all_return wildcard_message example_bus)) 2 = 2"
  using wildcard_topic_invokes_twice [of wildcard_message example_bus "[2]" all_return 2]
  by (simp add: example_bus_subscribers wildcard_message_def ends_in_dispatch_def all_return_def
      invocations_def)

text \<open>
  C4 as stated fails. Handler 1 is subscribed twice to \<^verbatim>\<open>tasks.start\<close> and unsubscribed
  once; the message published afterwards is still delivered to it.
\<close>

theorem unsubscribe_still_invoked_counterexample:
  "calls (history all_return twice_subscribed) = [(1, task_message)]"
proof -
  define s1 where "s1 = log_to INFO ''Agent protocol runner starting...''
     ((run (publish task_message (unsubscribe ''tasks.start'' 1
        (subscribe ''tasks.start'' 1 (subscribe ''tasks.start'' 1 init)))))\<lparr>is_running := True\<rparr>)"
  have st: "is_running s1" "message_queue s1 = [task_message]" "calls s1 = []"
    by (simp_all add: s1_def log_to_def run_def publish_def unsubscribe_def subscribe_def init_def
        get_or_empty_def Let_def)
  have sub: "get_or_empty (subscribers s1) ''tasks.start'' = [1]"
      "get_or_empty (subscribers s1) ''*'' = []"
    by (simp_all add: s1_def log_to_def run_def publish_def unsubscribe_def subscribe_def init_def
        get_or_empty_def Let_def)
  have ah: "all_handlers s1 task_message = [1]"
    using sub by (simp add: all_handlers_def task_message_def)
  have hyp: "\<forall>m \<in> set (message_queue s1). list_all (ends_in_dispatch all_return m) (all_handlers s1 m)"
    by (simp add: st(2) ah ends_in_dispatch_def all_return_def)
  have "calls (snd (while_is_running all_return s1)) = calls s1 @ deliveries s1 (message_queue s1)"
    using while_ends [OF st(1) hyp] by simp
  then have "calls (snd (while_is_running all_return s1)) = [(1, task_message)]"
    by (simp add: st deliveries_def ah invocations_def)
  moreover have "history all_return twice_subscribed = snd (while_is_running all_return s1)"
    by (simp add: history_def twice_subscribed_def run_loop_def s1_def)
  ultimately show ?thesis by simp
qed

text \<open>
  C4, amended. \<^verbatim>\<open>unsubscribe(T, h)\<close> removes the first occurrence of \<open>h\<close> from the list of
  \<open>T\<close> and leaves the other lists as they are. On a bus with the resulting registry, a
  dispatch of a message with topic \<open>T\<close> does not invoke \<open>h\<close> if \<open>h\<close> was registered at
  most once for \<open>T\<close> and is not registered for \<^verbatim>\<open>*\<close>; and no dispatch at all invokes
  \<open>h\<close> if \<open>h\<close> was registered at most once for \<open>T\<close> and for no other topic.
\<close>

theorem unsubscribe_removes_first_occurrence:
  assumes "subscribers s' = subscribers (unsubscribe T h s)"
  shows "get_or_empty (subscribers s') T = remove1 h (get_or_empty (subscribers s) T) \<and>
         (T' \<noteq> T \<longrightarrow> get_or_empty (subscribers s') T' = get_or_empty (subscribers s) T') \<and>
         (count_list (get_or_empty (subscribers s) T) h \<le> 1 \<and>
          h \<notin> set (get_or_empty (subscribers s) ''*'') \<and> topic m = T
            \<longrightarrow> h \<notin> fst ` set (invoked_by_dispatch env m s')) \<and>
         (count_list (get_or_empty (subscribers s) T) h \<le> 1 \<and>
          (\<forall>T'. T' \<noteq> T \<longrightarrow> h \<notin> set (get_or_empty (subscribers s) T'))
            \<longrightarrow> h \<notin> fst ` set (invoked_by_dispatch env m' s'))"
proof -
  have l: "\<And>tp. get_or_empty (subscribers s') tp =
      (if tp = T then remove1 h (get_or_empty (subscribers s) T) else get_or_empty (subscribers s) tp)"
    using assms by (simp add: unsubscribe_lists)
  have gone: "count_list (get_or_empty (subscribers s) T) h \<le> 1 \<Longrightarrow>
      h \<notin> set (get_or_empty (subscribers s') T)"
    using l remove1_last_occurrence by simp
  have keep: "\<And>tp. h \<notin> set (get_or_empty (subscribers s) tp) \<Longrightarrow>
      h \<notin> set (get_or_empty (subscribers s') tp)"
    using l by (auto dest: notin_set_remove1)
  have a: "get_or_empty (subscribers s') T = remove1 h (get_or_empty (subscribers s) T)"
    using l by simp
  have b: "T' \<noteq> T \<longrightarrow> get_or_empty (subscribers s') T' = get_or_empty (subscribers s) T'"
    using l by simp
  have c: "count_list (get_or_empty (subscribers s) T) h \<le> 1 \<and>
          h \<notin> set (get_or_empty (subscribers s) ''*'') \<and> topic m = T
            \<longrightarrow> h \<notin> fst ` set (invoked_by_dispatch env m s')"
  proof
    assume p: "count_list (get_or_empty (subscribers s) T) h \<le> 1 \<and>
          h \<notin> set (get_or_empty (subscribers s) ''*'') \<and> topic m = T"
    then have "h \<notin> set (all_handlers s' m)"
      using gone keep [of "''*''"] by (simp add: all_handlers_def)
    then show "h \<notin> fst ` set (invoked_by_dispatch env m s')"
      using invoked_by_dispatch_subset [of env m s'] by blast
  qed
  have d: "count_list (get_or_empty (subscribers s) T) h \<le> 1 \<and>
          (\<forall>T'. T' \<noteq> T \<longrightarrow> h \<notin> set (get_or_empty (subscribers s) T'))
            \<longrightarrow> h \<notin> fst ` set (invoked_by_dispatch env m' s')"
  proof
    assume p: "count_list (get_or_empty (subscribers s) T) h \<le> 1 \<and>
          (\<forall>T'. T' \<noteq> T \<longrightarrow> h \<notin> set (get_or_empty (subscribers s) T'))"
    have "\<And>tp. h \<notin> set (get_or_empty (subscribers s') tp)"
    proof -
      fix tp
      show "h \<notin> set (get_or_empty (subscribers s') tp)"
      proof (cases "tp = T")
        case True
        then show ?thesis using gone p by simp
      next
        case False
        then show ?thesis using keep p by simp
      qed
    qed
    then have "h \<notin> set (all_handlers s' m')" by (simp add: all_handlers_def)
    then show "h \<notin> fst ` set (invoked_by_dispatch env m' s')"
      using invoked_by_dispatch_subset [of env m' s'] by blast
  qed
  show ?thesis using a b c d by blast
qed

theorem unsubscribe_removes_first_occurrence_witness:
  "get_or_empty (subscribers once_subscribed) ''tasks.start'' = [] \<and>
   get_or_empty (subscribers once_subscribed) ''*'' = [2] \<and>
   1 \<notin> fst ` set (invoked_by_dispatch all_return task_message once_subscribed) \<and>
   1 \<notin> fst ` set (invoked_by_dispatch all_return other_message once_subscribed)"
proof -
  have once: "count_list (get_or_empty (subscribers example_bus) ''tasks.start'') 1 \<le> 1"
    by (simp add: example_bus_subscribers)
  have here: "1 \<notin> set (get_or_empty (subscribers example_bus) ''*'') \<and>
        topic task_message = ''tasks.start''"
    by (simp add: example_bus_subscribers task_message_def)
  have elsewhere: "\<forall>T'. T' \<noteq> ''tasks.start'' \<longrightarrow> 1 \<notin> set (get_or_empty (subscribers example_bus) T')"
    by (simp add: example_bus_def subscribe_def log_to_def init_def get_or_empty_def)
  show ?thesis
    using once here elsewhere
      unsubscribe_removes_first_occurrence
        [of once_subscribed "''tasks.start''" 1 example_bus "''*''" task_message all_return
            other_message]
    by (simp add: once_subscribed_def example_bus_subscribers)
qed

text \<open>
  C5 as stated fails: \<^verbatim>\<open>Message(sender="tool", topic="", payload={})\<close> is constructed.
\<close>

theorem message_accepts_empty_topic_counterexample:
  "Message ''uuid-1'' 1700000000 empty_topic_kwargs =
     Inr \<lparr> sender = ''tool'', topic = '''', payload = [], message_id = ''uuid-1'',
           conversation_id = None, in_reply_to = None, timestamp = 1700000000, priority = 0.5,
           token_count = None, summary = None \<rparr>"
  by (simp add: Message_def empty_topic_kwargs_def priority_errors_def)

text \<open>
  C5, amended. Construction fails, with a non-empty list of validation errors, when
  \<^verbatim>\<open>sender\<close>, \<^verbatim>\<open>topic\<close> or \<^verbatim>\<open>payload\<close> is missing or when a given \<^verbatim>\<open>priority\<close> lies
  outside \<open>[0, 1]\<close>. Otherwise it succeeds, for every topic string, the empty one
  included, and fills \<^verbatim>\<open>message_id\<close>, \<^verbatim>\<open>timestamp\<close> and \<^verbatim>\<open>priority\<close> (0.5) with their
  defaults where they are absent.
\<close>

theorem message_construction:
  "(kw_sender kw = None \<or> kw_topic kw = None \<or> kw_payload kw = None \<or>
      (\<exists>p. kw_priority kw = Some p \<and> (p < 0 \<or> 1 < p))
     \<longrightarrow> validation_errors kw \<noteq> [] \<and> Message uuid4 now kw = Inl (validation_errors kw)) \<and>
   (kw_sender kw = Some s \<and> kw_topic kw = Some t \<and> kw_payload kw = Some pl \<and>
      (\<forall>p. kw_priority kw = Some p \<longrightarrow> 0 \<le> p \<and> p \<le> 1)
     \<longrightarrow> Message uuid4 now kw =
           Inr \<lparr> sender = s, topic = t, payload = pl,
                 message_id = (case kw_message_id kw of None \<Rightarrow> uuid4 | Some i \<Rightarrow> i),
                 conversation_id = kw_conversation_id kw,
                 in_reply_to = kw_in_reply_to kw,
                 timestamp = (case kw_timestamp kw of None \<Rightarrow> now | Some ts \<Rightarrow> ts),
                 priority = (case kw_priority kw of None \<Rightarrow> 0.5 | Some x \<Rightarrow> x),
                 token_count = kw_token_count kw,
                 summary = kw_summary kw \<rparr>)"
proof (intro conjI impI)
  assume bad: "kw_sender kw = None \<or> kw_topic kw = None \<or> kw_payload kw = None \<or>
      (\<exists>p. kw_priority kw = Some p \<and> (p < 0 \<or> 1 < p))"
  then show "validation_errors kw \<noteq> []"
    by (auto simp: validation_errors_def required_def priority_errors_def)
  from bad show "Message uuid4 now kw = Inl (validation_errors kw)"
    by (auto simp: Message_def priority_errors_def split: option.splits)
next
  assume ok: "kw_sender kw = Some s \<and> kw_topic kw = Some t \<and> kw_payload kw = Some pl \<and>
      (\<forall>p. kw_priority kw = Some p \<longrightarrow> 0 \<le> p \<and> p \<le> 1)"
  then have "priority_errors (kw_priority kw) = []"
    by (cases "kw_priority kw") (simp_all add: priority_errors_def)
  with ok show "Message uuid4 now kw =
           Inr \<lparr> sender = s, topic = t, payload = pl,
                 message_id = (case kw_message_id kw of None \<Rightarrow> uuid4 | Some i \<Rightarrow> i),
                 conversation_id = kw_conversation_id kw,
                 in_reply_to = kw_in_reply_to kw,
                 timestamp = (case kw_timestamp kw of None \<Rightarrow> now | Some ts \<Rightarrow> ts),
                 priority = (case kw_priority kw of None \<Rightarrow> 0.5 | Some x \<Rightarrow> x),
                 token_count = kw_token_count kw,
                 summary = kw_summary kw \<rparr>"
    by (simp add: Message_def)
qed

theorem message_construction_witness:
  "Message ''uuid-1'' 1700000000 no_payload_kwargs = Inl [Missing ''payload''] \<and>
   Message ''uuid-1'' 1700000000 example_kwargs =
     Inr \<lparr> sender = ''start_new_task_tool'', topic = ''tasks.start'',
           payload = [(''task_name'', PStr ''x'')], message_id = ''uuid-1'',
           conversation_id = None, in_reply_to = None, timestamp = 1700000000, priority = 0.8,
           token_count = None, summary = None \<rparr>"
  using message_construction [of no_payload_kwargs "''uuid-1''" 1700000000]
    message_construction [of example_kwargs "''uuid-1''" 1700000000 "''start_new_task_tool''"
      "''tasks.start''" "[(''task_name'', PStr ''x'')]"]
  by (simp add: no_payload_kwargs_def example_kwargs_def validation_errors_def required_def
      priority_errors_def)

text \<open>
  C6. \<^verbatim>\<open>publish\<close> appends to the end of the queue, so messages published in the order
  \<open>ms\<close> are queued in that order behind what was queued before. The loop takes messages
  from the front: what it invokes is always a prefix of the handlers of the first queued
  message, then those of the second, and so on (across all topics, one block per message),
  and it is the whole sequence, with the queue drained, when every invocation ends by
  returning or by an \<^verbatim>\<open>Exception\<close>.
\<close>

theorem dispatch_in_enqueue_order:
  "message_queue (foldl (\<lambda>s m. publish m s) s ms) = message_queue s @ ms \<and>
   prefix (invoked_by_loop env s) (deliveries s (message_queue s)) \<and>
   (is_running s \<and>
    (\<forall>m \<in> set (message_queue s). list_all (ends_in_dispatch env m) (all_handlers s m))
      \<longrightarrow> invoked_by_loop env s = deliveries s (message_queue s) \<and>
          message_queue (snd (while_is_running env s)) = [])"
proof (intro conjI impI)
  show "message_queue (foldl (\<lambda>s m. publish m s) s ms) = message_queue s @ ms"
    by (simp add: publish_all_queue)
  show "prefix (invoked_by_loop env s) (deliveries s (message_queue s))"
    by (rule invoked_by_loop_prefix)
next
  assume a: "is_running s \<and>
    (\<forall>m \<in> set (message_queue s). list_all (ends_in_dispatch env m) (all_handlers s m))"
  then have r: "is_running s"
    and h: "\<forall>m \<in> set (message_queue s). list_all (ends_in_dispatch env m) (all_handlers s m)"
    by simp_all
  show "invoked_by_loop env s = deliveries s (message_queue s)"
    using while_ends [OF r h] by (simp add: invoked_by_loop_def)
  show "message_queue (snd (while_is_running env s)) = []"
    using while_ends [OF r h] by simp
qed

theorem dispatch_in_enqueue_order_witness:
  "message_queue (foldl (\<lambda>s m. publish m s) example_bus [task_message, other_message]) =
     [task_message, other_message] \<and>
   invoked_by_loop all_return (example_queue\<lparr>is_running := True\<rparr>) =
     [(1, task_message), (2, task_message), (2, other_message)]"
proof -
  let ?s = "example_queue\<lparr>is_running := True\<rparr>"
  have s: "is_running ?s" "message_queue ?s = [task_message, other_message]"
    "subscribers ?s = subscribers example_bus"
    by (simp_all add: example_queue_state)
  have ah: "all_handlers ?s task_message = [1, 2]" "all_handlers ?s other_message = [2]"
    using s(3) by (rule example_all_handlers)+
  have hyp: "is_running ?s \<and>
    (\<forall>m \<in> set (message_queue ?s). list_all (ends_in_dispatch all_return m) (all_handlers ?s m))"
    by (simp add: s(2) ah ends_in_dispatch_def all_return_def)
  have d: "deliveries ?s [task_message, other_message] =
       [(1, task_message), (2, task_message), (2, other_message)]"
    by (simp add: deliveries_def invocations_def ah)
  have q0: "message_queue example_bus = []"
    by (simp add: example_bus_def subscribe_def log_to_def init_def)
  have "message_queue (foldl (\<lambda>s m. publish m s) example_bus [task_message, other_message]) =
      message_queue example_bus @ [task_message, other_message]"
    using dispatch_in_enqueue_order [of example_bus "[task_message, other_message]" all_return]
    by (rule conjunct1)
  then have a: "message_queue (foldl (\<lambda>s m. publish m s) example_bus [task_message, other_message]) =
      [task_message, other_message]"
    by (simp only: q0 append_Nil)
  have "invoked_by_loop all_return ?s = deliveries ?s (message_queue ?s)"
    using dispatch_in_enqueue_order [of ?s "[]" all_return] hyp by blast
  then have b: "invoked_by_loop all_return ?s =
      [(1, task_message), (2, task_message), (2, other_message)]"
    by (simp only: s(2) d)
  show ?thesis using a b by (rule conjI)
qed

text \<open>
  C9. The bus hands a message on as it got it: \<^verbatim>\<open>publish\<close> enqueues the message
  itself, a dispatch of \<open>M\<close> calls every handler with \<open>M\<close>, every message a handler
  receives from the loop is one of the queued messages, field for field, and what the loop
  leaves in the queue is a suffix of what was queued.
\<close>

theorem messages_passed_unchanged:
  "message_queue (publish M s) = message_queue s @ [M] \<and>
   map snd (invoked_by_dispatch env M s) = replicate (length (invoked_by_dispatch env M s)) M \<and>
   snd ` set (invoked_by_loop env s) \<subseteq> set (message_queue s) \<and>
   (\<exists>k. message_queue (snd (while_is_running env s)) = drop k (message_queue s))"
proof (intro conjI)
  show "message_queue (publish M s) = message_queue s @ [M]"
    by (simp add: publish_def log_to_def)
  obtain k where "calls (snd (dispatch env M s)) = calls s @ invocations M (take k (all_handlers s M))"
    using dispatch_prefix by blast
  then have "invoked_by_dispatch env M s = invocations M (take k (all_handlers s M))"
    by (simp add: invoked_by_dispatch_def)
  then show "map snd (invoked_by_dispatch env M s) = replicate (length (invoked_by_dispatch env M s)) M"
    by (simp add: invocations_def comp_def map_replicate_const)
  have "set (deliveries s (message_queue s)) \<subseteq> UNIV \<times> set (message_queue s)"
    by (auto simp: deliveries_def invocations_def)
  moreover have "set (invoked_by_loop env s) \<subseteq> set (deliveries s (message_queue s))"
    using invoked_by_loop_prefix [of env s] by (rule set_mono_prefix)
  ultimately show "snd ` set (invoked_by_loop env s) \<subseteq> set (message_queue s)" by fastforce
  show "\<exists>k. message_queue (snd (while_is_running env s)) = drop k (message_queue s)"
    using while_prefix [of env s] by blast
qed

text \<open>
  C7. \<^verbatim>\<open>run\<close> on a bus whose \<^verbatim>\<open>_is_running\<close> is set or whose \<^verbatim>\<open>_runner_task\<close> holds a
  task only logs a warning: no task is made and no attribute changes. \<^verbatim>\<open>stop\<close> clears
  the flag and the handle, so that a \<^verbatim>\<open>run\<close> after it makes a new task and holds it.
  In every history of a bus, under every schedule, at most one loop task has not been
  cancelled, and it is the one that \<^verbatim>\<open>_runner_task\<close> holds.
\<close>

theorem at_most_one_loop_task:
  "(is_running s \<or> runner_task s \<noteq> None
      \<longrightarrow> run s = s\<lparr>logged := logged s @ [(WARNING, ''Protocol runner is already running.'')]\<rparr>) \<and>
   runner_task (stop s) = None \<and> \<not> is_running (stop s) \<and>
   run (stop s) =
     (stop s)\<lparr>runner_task := Some (length (tasks s)), tasks := tasks (stop s) @ [False]\<rparr> \<and>
   length (uncancelled (history env evs)) \<le> 1 \<and>
   set (uncancelled (history env evs)) = set_option (runner_task (history env evs))"
proof (intro conjI impI)
  assume "is_running s \<or> runner_task s \<noteq> None"
  then show "run s = s\<lparr>logged := logged s @ [(WARNING, ''Protocol runner is already running.'')]\<rparr>"
    by (auto simp: run_def log_to_def)
next
  show st: "runner_task (stop s) = None"
    by (simp add: stop_def log_to_def Let_def split: option.splits)
  show nr: "\<not> is_running (stop s)"
    by (simp add: stop_def log_to_def Let_def split: option.splits)
  have "length (tasks (stop s)) = length (tasks s)"
    by (simp add: stop_def log_to_def Let_def split: option.splits)
  then show "run (stop s) =
     (stop s)\<lparr>runner_task := Some (length (tasks s)), tasks := tasks (stop s) @ [False]\<rparr>"
    using st nr by (simp add: run_def)
  have inv: "runner_only (history env evs)" by (rule runner_only_history)
  then show "length (uncancelled (history env evs)) \<le> 1"
    by (cases "runner_task (history env evs)") (simp_all add: runner_only_def)
  from inv show "set (uncancelled (history env evs)) = set_option (runner_task (history env evs))"
    by (cases "runner_task (history env evs)") (simp_all add: runner_only_def)
qed

theorem at_most_one_loop_task_witness:
  "run (run init) = (run init)\<lparr>logged := [(WARNING, ''Protocol runner is already running.'')]\<rparr> \<and>
   runner_task (run init) = Some 0 \<and>
   tasks (run (stop (run init))) = [True, False] \<and>
   runner_task (run (stop (run init))) = Some 1"
proof -
  have r: "runner_task (run init) = Some 0" "tasks (run init) = [False]" "logged (run init) = []"
    by (simp_all add: run_def init_def)
  have s: "tasks (stop (run init)) = [True]"
    using r by (simp add: stop_def log_to_def Let_def)
  have "is_running (run init) \<or> runner_task (run init) \<noteq> None" using r by simp
  then show ?thesis
    using at_most_one_loop_task [of "run init"] r s by simp
qed

text \<open>
  C8 as stated fails. On the example bus the worker (handler 1) is awaiting when the task
  is cancelled: its \<^verbatim>\<open>CancelledError\<close> is not an \<^verbatim>\<open>Exception\<close>, leaves \<^verbatim>\<open>_dispatch\<close>
  and ends the loop in the middle of the dispatch. The supervisor (handler 2), resolved
  for the same message, is never invoked, and the next message stays in the queue.
\<close>

theorem cancelled_inside_handler_counterexample:
  "all_handlers example_queue task_message = [1, 2] \<and>
   fst (run_loop worker_cancelled example_queue) = Returned \<and>
   calls (snd (run_loop worker_cancelled example_queue)) = [(1, task_message)] \<and>
   message_queue (snd (run_loop worker_cancelled example_queue)) = [other_message] \<and>
   \<not> is_running (snd (run_loop worker_cancelled example_queue))"
proof -
  define s0 where "s0 = log_to INFO ''Agent protocol runner starting...'' (example_queue\<lparr>is_running := True\<rparr>)"
  have s: "is_running s0" "message_queue s0 = [task_message, other_message]"
    "subscribers s0 = subscribers example_bus" "calls s0 = []"
    by (simp_all add: s0_def log_to_def example_queue_state)
  have ah: "all_handlers s0 task_message = [] @ 1 # [2]"
    using example_all_handlers(1) [OF s(3)] by simp
  have c: "worker_cancelled 1 task_message = Raises CancelledError"
    by (simp add: worker_cancelled_def)
  have "while_is_running worker_cancelled s0 =
     cancelled_in_loop
       (s0\<lparr>message_queue := [other_message],
          logged := logged s0 @ dequeued_debug task_message #
                      map (\<lambda>h. handler_error task_message)
                        (filter (\<lambda>h. worker_cancelled h task_message = Raises Exception) []),
          calls := calls s0 @ invocations task_message ([] @ [1])\<rparr>)"
    using s(1,2) ah _ c by (rule while_cancelled) simp
  then have "fst (while_is_running worker_cancelled s0) = Returned \<and>
      calls (snd (while_is_running worker_cancelled s0)) = [(1, task_message)] \<and>
      message_queue (snd (while_is_running worker_cancelled s0)) = [other_message] \<and>
      \<not> is_running (snd (while_is_running worker_cancelled s0))"
    by (simp add: cancelled_in_loop_def after_loop_def log_to_def invocations_def s(4))
  moreover have "run_loop worker_cancelled example_queue = while_is_running worker_cancelled s0"
    by (simp add: run_loop_def s0_def)
  moreover have "all_handlers example_queue task_message = [1, 2]"
    using example_queue_state(2) by (rule example_all_handlers)
  ultimately show ?thesis by simp
qed

text \<open>
  C8, amended. \<^verbatim>\<open>stop\<close> calls \<^verbatim>\<open>cancel()\<close> on the task it holds, and the loop observes
  the cancellation at the await where it is suspended. In \<^verbatim>\<open>get\<close>: it logs, clears
  \<^verbatim>\<open>_is_running\<close> and returns, and nothing else changes. Inside the invocation of a
  handler \<open>h\<close>: the handlers before \<open>h\<close> and \<open>h\<close> have been invoked, those after \<open>h\<close> are
  not, the rest of the queue stays, and the loop returns with \<^verbatim>\<open>_is_running\<close> cleared.
  When every invocation ends by returning or by an \<^verbatim>\<open>Exception\<close>, the loop leaves no
  dispatch early: it invokes everything and blocks in \<^verbatim>\<open>get\<close>.
\<close>

theorem cancellation_where_suspended:
  "cancelled_in_loop s =
     (Returned, s\<lparr>logged := logged s @
                     [(INFO, ''Agent protocol runner received cancellation request.''),
                      (INFO, ''Agent protocol runner has stopped.'')],
                  is_running := False\<rparr>) \<and>
   (runner_task s = Some t \<longrightarrow> tasks (stop s) = (tasks s)[t := True]) \<and>
   (is_running s \<and> message_queue s = m # q \<and> all_handlers s m = pre @ h # post \<and>
    list_all (ends_in_dispatch env m) pre \<and> env h m = Raises CancelledError
      \<longrightarrow> fst (while_is_running env s) = Returned \<and>
          invoked_by_loop env s = invocations m (pre @ [h]) \<and>
          message_queue (snd (while_is_running env s)) = q \<and>
          \<not> is_running (snd (while_is_running env s))) \<and>
   (is_running s \<and>
    (\<forall>m \<in> set (message_queue s). list_all (ends_in_dispatch env m) (all_handlers s m))
      \<longrightarrow> fst (while_is_running env s) = Blocked_on_get \<and>
          invoked_by_loop env s = deliveries s (message_queue s))"
proof (intro conjI impI)
  show "cancelled_in_loop s =
     (Returned, s\<lparr>logged := logged s @
                     [(INFO, ''Agent protocol runner received cancellation request.''),
                      (INFO, ''Agent protocol runner has stopped.'')],
                  is_running := False\<rparr>)"
    by (simp add: cancelled_in_loop_def after_loop_def log_to_def)
next
  assume "runner_task s = Some t"
  then show "tasks (stop s) = (tasks s)[t := True]"
    by (simp add: stop_def log_to_def Let_def)
next
  assume a: "is_running s \<and> message_queue s = m # q \<and> all_handlers s m = pre @ h # post \<and>
    list_all (ends_in_dispatch env m) pre \<and> env h m = Raises CancelledError"
  then have w: "while_is_running env s =
     cancelled_in_loop
       (s\<lparr>message_queue := q,
          logged := logged s @ dequeued_debug m #
                      map (\<lambda>h. handler_error m) (filter (\<lambda>h. env h m = Raises Exception) pre),
          calls := calls s @ invocations m (pre @ [h])\<rparr>)"
    using while_cancelled [of s m q pre h post env] by simp
  show "fst (while_is_running env s) = Returned"
    by (simp add: w cancelled_in_loop_def)
  show "invoked_by_loop env s = invocations m (pre @ [h])"
    by (simp add: w invoked_by_loop_def cancelled_in_loop_frame)
  show "message_queue (snd (while_is_running env s)) = q"
    by (simp add: w cancelled_in_loop_frame)
  show "\<not> is_running (snd (while_is_running env s))"
    by (simp add: w cancelled_in_loop_frame)
next
  assume a: "is_running s \<and>
    (\<forall>m \<in> set (message_queue s). list_all (ends_in_dispatch env m) (all_handlers s m))"
  then have r: "is_running s"
    and h: "\<forall>m \<in> set (message_queue s). list_all (ends_in_dispatch env m) (all_handlers s m)"
    by simp_all
  show "fst (while_is_running env s) = Blocked_on_get"
    using while_ends [OF r h] by simp
  show "invoked_by_loop env s = deliveries s (message_queue s)"
    using while_ends [OF r h] by (simp add: invoked_by_loop_def)
qed

theorem cancellation_where_suspended_witness:
  "tasks (stop (run init)) = [True] \<and>
   fst (while_is_running worker_cancelled (example_queue\<lparr>is_running := True\<rparr>)) = Returned \<and>
   invoked_by_loop worker_cancelled (example_queue\<lparr>is_running := True\<rparr>) = [(1, task_message)] \<and>
   message_queue (snd (while_is_running worker_cancelled (example_queue\<lparr>is_running := True\<rparr>))) =
     [other_message] \<and>
   fst (while_is_running all_return (example_queue\<lparr>is_running := True\<rparr>)) = Blocked_on_get \<and>
   invoked_by_loop all_return (example_queue\<lparr>is_running := True\<rparr>) =
     [(1, task_message), (2, task_message), (2, other_message)]"
proof -
  define s0 where "s0 = example_queue\<lparr>is_running := True\<rparr>"
  have s: "is_running s0" "message_queue s0 = [task_message, other_message]"
    "subscribers s0 = subscribers example_bus"
    by (simp_all add: s0_def example_queue_state)
  have ah: "all_handlers s0 task_message = [1, 2]" "all_handlers s0 other_message = [2]"
    using s(3) by (rule example_all_handlers)+
  have r: "runner_task (run init) = Some 0" "tasks (run init) = [False]"
    by (simp_all add: run_def init_def)
  have a: "tasks (stop (run init)) = [True]"
    using cancellation_where_suspended [of "run init" 0] r by simp
  have h1: "is_running s0 \<and> message_queue s0 = task_message # [other_message] \<and>
      all_handlers s0 task_message = [] @ 1 # [2] \<and>
      list_all (ends_in_dispatch worker_cancelled task_message) [] \<and>
      worker_cancelled 1 task_message = Raises CancelledError"
    by (simp add: s ah worker_cancelled_def)
  have b: "fst (while_is_running worker_cancelled s0) = Returned \<and>
      invoked_by_loop worker_cancelled s0 = invocations task_message ([] @ [1]) \<and>
      message_queue (snd (while_is_running worker_cancelled s0)) = [other_message]"
    using cancellation_where_suspended
      [of s0 _ task_message "[other_message]" "[]" 1 "[2]" worker_cancelled] h1
    by blast
  have h2: "is_running s0 \<and>
      (\<forall>m \<in> set (message_queue s0). list_all (ends_in_dispatch all_return m) (all_handlers s0 m))"
    by (simp add: s ah ends_in_dispatch_def all_return_def)
  have c: "fst (while_is_running all_return s0) = Blocked_on_get \<and>
      invoked_by_loop all_return s0 = deliveries s0 (message_queue s0)"
    using cancellation_where_suspended [of s0 _ _ _ _ _ _ all_return] h2 by blast
  have d: "deliveries s0 (message_queue s0) =
       [(1, task_message), (2, task_message), (2, other_message)]"
    by (simp add: s(2) deliveries_def invocations_def ah)
  show ?thesis
    using a b c d unfolding s0_def by (simp add: invocations_def)
qed

end
